theory Spec2Isabelle
  imports Main "HOL-Library.Code_Target_Nat" "HOL-Library.Log_Nat"
begin

section \<open>JavaScript values\<close>

text \<open>
  The program keeps its counter in a JavaScript Number, an IEEE 754 binary64 value. A value
  \<open>Num n\<close> stands for the Number whose value is the non-negative integer \<open>n\<close>; the Numbers
  among the integers are those with at most 53 significant bits (\<open>is_double\<close>), so every
  integer up to \<open>2 ^ 53\<close> is one. \<open>NaN\<close> is what \<open>Number\<close> makes of a text that is not a
  numeric literal. Negative, fractional and infinite Numbers are outside the model.

  Arithmetic on Numbers gives the Number nearest to the exact result, a tie going to the
  one with the even significand. \<open>round_half_even a c\<close> is the integer nearest to \<open>a / c\<close>.
  \<open>nearest_double a b\<close> is the Number nearest to \<open>a / b\<close> when \<open>a / b\<close> is an integer or at
  least \<open>2 ^ 52\<close>, where every Number is an integer: with \<open>L\<close> the number of bits of the
  integer part, the Numbers near \<open>a / b\<close> are the multiples of \<open>2 ^ (L - 53)\<close>.
\<close>

datatype jsnum = Num nat | NaN

definition MAX_EXACT :: nat where
  "MAX_EXACT = 2 ^ 53"

definition round_half_even :: "nat \<Rightarrow> nat \<Rightarrow> nat" where
  "round_half_even a c =
     (let k = a div c; r = a mod c
      in if 2 * r < c then k
         else if c < 2 * r then k + 1
         else if even k then k else k + 1)"

definition nearest_double :: "nat \<Rightarrow> nat \<Rightarrow> nat" where
  "nearest_double a b =
     (let s = floorlog 2 (a div b) - 53
      in round_half_even a (b * 2 ^ s) * 2 ^ s)"

definition is_double :: "nat \<Rightarrow> bool" where
  "is_double n = (nearest_double n 1 = n)"

text \<open>
  \<open>x % m\<close> is exact. \<open>Math.floor(x / m)\<close> (\<open>floor_div\<close>) is the integer part of the Number
  nearest to \<open>x / m\<close>; the quotient is scaled by \<open>2 ^ 64\<close> (rounding commutes with a power of
  two) so that it is at least \<open>2 ^ 52\<close> for every \<open>x > 0\<close> and the divisor 83 of the program.
  \<open>x + k\<close> is the Number nearest to the sum, and \<open>x++\<close> is \<open>x + 1\<close>: below \<open>2 ^ 53\<close> it is the
  successor, \<open>2 ^ 53 + 1\<close> rounds back to \<open>2 ^ 53\<close>, and \<open>2 ^ 53 + 2\<close> becomes \<open>2 ^ 53 + 4\<close>.
\<close>

fun js_mod :: "jsnum \<Rightarrow> nat \<Rightarrow> jsnum" where
  "js_mod (Num n) m = Num (n mod m)"
| "js_mod NaN m = NaN"

definition floor_div :: "nat \<Rightarrow> nat \<Rightarrow> nat" where
  "floor_div n m = nearest_double (n * 2 ^ 64) m div 2 ^ 64"

fun js_floor_div :: "jsnum \<Rightarrow> nat \<Rightarrow> jsnum" where
  "js_floor_div (Num n) m = Num (floor_div n m)"
| "js_floor_div NaN m = NaN"

fun js_add :: "jsnum \<Rightarrow> nat \<Rightarrow> jsnum" where
  "js_add (Num n) k = Num (nearest_double (n + k) 1)"
| "js_add NaN k = NaN"

fun js_gt0 :: "jsnum \<Rightarrow> bool" where
  "js_gt0 (Num n) = (0 < n)"
| "js_gt0 NaN = False"

definition js_incr :: "jsnum \<Rightarrow> jsnum" where
  "js_incr count = js_add count 1"

text \<open>
  \<open>arr[i]\<close> on an array of one-character strings: \<open>undefined\<close> (here \<open>None\<close>) when the index
  is not the index of an element. \<open>x + str\<close> turns \<open>undefined\<close> into the text \<open>undefined\<close>.
\<close>

fun js_index :: "string \<Rightarrow> jsnum \<Rightarrow> string option" where
  "js_index arr (Num i) = (if i < length arr then Some [arr ! i] else None)"
| "js_index arr NaN = None"

fun js_concat :: "string option \<Rightarrow> string \<Rightarrow> string" where
  "js_concat (Some c) str = c @ str"
| "js_concat None str = ''undefined'' @ str"

section \<open>The code generator\<close>

text \<open>
  \<^verbatim>\<open>var urlChars = "1234567890qwertyuiop...,./".split('');\<close>
  The alphabet, in the order of the source. The apostrophe is written as its code.
\<close>

definition urlChars :: string where
  "urlChars =
     ''1234567890qwertyuiopasdfghjklzxcvbnmQWERTYUIOPASDFGHJKLZXCVBNM~!@$%&*()-_=+[];:''
     @ [CHR 0x27] @ '',./''"

definition asciiRange :: nat where
  "asciiRange = length urlChars"

definition asciiMin :: nat where
  "asciiMin = 0"

text \<open>
  The loop of \<open>generateShortURL\<close>:
  \<^verbatim>\<open>
  do {
      str = urlChars[count2 % asciiRange + asciiMin] + str;
      count2 = Math.floor(count2 / asciiRange);
  } while (count2 > 0);
  \<close>
\<close>

function do_while :: "jsnum \<Rightarrow> string \<Rightarrow> string" where
  "do_while count2 str =
     (let str' = js_concat (js_index urlChars (js_add (js_mod count2 asciiRange) asciiMin)) str;
          count2' = js_floor_div count2 asciiRange
      in if js_gt0 count2' then do_while count2' str' else str')"
  by pat_completeness auto
termination
proof (relation "measure (\<lambda>(c, s). case c of Num n \<Rightarrow> n | NaN \<Rightarrow> 0)")
  show "wf (measure (\<lambda>(c, s). case c of Num n \<Rightarrow> n | NaN \<Rightarrow> 0))"
    by simp
next
  fix count2 :: jsnum and str x :: string and xa :: jsnum
  assume xa: "xa = js_floor_div count2 asciiRange" and gt: "js_gt0 xa"
  have less: "nearest_double (n * 2 ^ 64) 83 div 2 ^ 64 < n" if n: "0 < n" for n :: nat
  proof -
    define a where "a = n * 2 ^ 64"
    define q where "q = a div 83"
    define s where "s = floorlog 2 q - 53"
    have pow: "2 ^ s \<le> q + 1"
    proof (cases "s = 0")
      case True
      then show ?thesis by simp
    next
      case False
      then have "0 < q"
        unfolding s_def by (cases "q = 0") (simp_all add: floorlog_def)
      then have "2 ^ (floorlog 2 q - 1) \<le> q"
        using floorlog_bounds [of q 2] by simp
      moreover have "(2::nat) ^ s \<le> 2 ^ (floorlog 2 q - 1)"
        unfolding s_def by (rule power_increasing) simp_all
      ultimately have "(2::nat) ^ s \<le> q"
        by (rule order_trans [rotated])
      then show ?thesis by simp
    qed
    have "a div (83 * 2 ^ s) = q div 2 ^ s"
      by (simp add: q_def div_mult2_eq)
    then have "round_half_even a (83 * 2 ^ s) \<le> q div 2 ^ s + 1"
      by (simp add: round_half_even_def Let_def)
    then have "round_half_even a (83 * 2 ^ s) * 2 ^ s \<le> (q div 2 ^ s + 1) * 2 ^ s"
      by (rule mult_le_mono1)
    also have "\<dots> = q div 2 ^ s * 2 ^ s + 2 ^ s"
      by (simp add: algebra_simps)
    also have "\<dots> \<le> q + 2 ^ s"
      by simp
    also have "\<dots> \<le> 2 * q + 1"
      using pow by simp
    finally have "nearest_double a 83 \<le> 2 * q + 1"
      by (simp add: nearest_double_def Let_def q_def s_def)
    moreover have "83 * q \<le> n * 2 ^ 64"
      unfolding q_def a_def by simp
    then have "2 * q + 1 < n * 2 ^ 64"
      using n by simp
    ultimately have "nearest_double a 83 < n * 2 ^ 64"
      by simp
    then show ?thesis
      by (simp add: a_def less_mult_imp_div_less)
  qed
  have range: "asciiRange = 83"
    by (simp add: asciiRange_def urlChars_def)
  show "((xa, x), count2, str) \<in> measure (\<lambda>(c, s). case c of Num n \<Rightarrow> n | NaN \<Rightarrow> 0)"
  proof (cases count2)
    case (Num n)
    show ?thesis
    proof (cases "n = 0")
      case True
      with Num xa gt show ?thesis
        by (simp add: range floor_div_def nearest_double_def round_half_even_def floorlog_def)
    next
      case False
      then show ?thesis
        using Num xa less [of n] by (simp add: range floor_div_def)
    qed
  next
    case NaN
    with xa gt show ?thesis by simp
  qed
qed

declare do_while.simps [simp del]

text \<open>The code that \<open>generateShortURL\<close> builds from the counter it read: \<open>str\<close> starts empty.\<close>

definition generate_str :: "jsnum \<Rightarrow> string" where
  "generate_str count = do_while count []"

text \<open>
  The algorithm in the words of the specification, for comparison with the loop: take the
  value mod A as the next digit, from the least significant end, divide by A, and stop when
  the quotient is 0. \<open>spec_digits\<close> lists the digits least significant first;
  \<open>spec_generate\<close> writes them most significant first, each as its alphabet character.
\<close>

function spec_digits :: "nat \<Rightarrow> nat list" where
  "spec_digits v =
     (v mod asciiRange) # (if v div asciiRange = 0 then [] else spec_digits (v div asciiRange))"
  by pat_completeness auto
termination
  by (relation "measure id") (auto simp: asciiRange_def urlChars_def)

declare spec_digits.simps [simp del]

definition spec_generate :: "nat \<Rightarrow> string" where
  "spec_generate v = map (\<lambda>d. urlChars ! d) (rev (spec_digits v))"

text \<open>The number a list of digits (least significant first) stands for.\<close>

fun digits_value :: "nat list \<Rightarrow> nat" where
  "digits_value [] = 0"
| "digits_value (d # ds) = d + asciiRange * digits_value ds"

section \<open>The counter file and the record collection\<close>

text \<open>
  The shared state: the file \<open>./count\<close> and the collection \<open>shorturls\<close>. The file is
  modelled by what the program makes of it: \<open>None\<close> when \<open>fs.readFile\<close> calls back with an
  error (there is no such file, or it cannot be read), and \<open>Some c\<close> when it can be read and
  \<open>Number(buf.toString())\<close> is \<open>c\<close>. \<open>fs.writeFile('./count', count)\<close> stores the text of the
  Number, which reads back as the same Number. The collection is the list of its documents
  in insertion order, without the \<open>_id\<close> field that every reply removes.
\<close>

datatype jserror = ReadError | WriteError | ConnectError | QueryError | InsertError | RequestError

record doc =
  original_url :: string
  short_url :: string

record world =
  count_file :: "jsnum option"
  shorturls :: "doc list"

text \<open>
  What the environment decides for one request: how the probe of the URL ends, whether
  each \<open>mongo.connect\<close>, the \<open>findOne\<close> and the \<open>insert\<close> fail, and how the write of the
  counter ends. The probe ends with a response that can be read to its end, with an error
  of the request or of the response, or with \<open>http.get\<close> throwing before any callback, as
  it does for a URL it cannot use (\<open>http://\<close> without a host). A failed write reports an
  error and leaves the file as the environment says (\<open>fs.writeFile\<close> truncates before it
  writes); a failed insert stores nothing.
\<close>

datatype write_result = Written | Write_failed "jsnum option"

datatype probe = Probe_ok | Probe_error | Probe_throws

record env =
  fetch :: probe
  find_connect_error :: bool
  findOne_error :: bool
  add_connect_error :: bool
  write_outcome :: write_result
  insert_error :: bool

definition fs_readFile :: "world \<Rightarrow> jserror + jsnum" where
  "fs_readFile w = (case count_file w of None \<Rightarrow> Inl ReadError | Some c \<Rightarrow> Inr c)"

definition fs_writeFile :: "write_result \<Rightarrow> jsnum \<Rightarrow> world \<Rightarrow> jserror option \<times> world" where
  "fs_writeFile wr data w =
     (case wr of
        Written \<Rightarrow> (None, w\<lparr>count_file := Some data\<rparr>)
      | Write_failed left \<Rightarrow> (Some WriteError, w\<lparr>count_file := left\<rparr>))"

section \<open>generateShortURL\<close>

text \<open>
  \<^verbatim>\<open>
  function generateShortURL(cb) {
      fs.readFile('./count', function(err, buf) {
          if (err) { return cb(err); }
          var count = Number(buf.toString());
          var count2 = count;
          ...
          var str = "";
          do { ... } while (count2 > 0);
          count++;
          fs.writeFile('./count', count, function(err) {
              if (err) return cb(err);
              return cb(null, str);
          });
      });
  }
  \<close>
  \<open>readFile_cb\<close> is the callback of \<open>fs.readFile\<close> on a successful read, together with the
  write it starts and the callback of that write. The result is what \<open>cb\<close> receives:
  \<open>Inl err\<close> for \<open>cb(err)\<close>, \<open>Inr str\<close> for \<open>cb(null, str)\<close>.
\<close>

definition readFile_cb :: "write_result \<Rightarrow> jsnum \<Rightarrow> world \<Rightarrow> (jserror + string) \<times> world" where
  "readFile_cb wr count w =
     (let count2 = count;
          str = do_while count2 [];
          count' = js_incr count
      in case fs_writeFile wr count' w of
           (Some err, w') \<Rightarrow> (Inl err, w')
         | (None, w') \<Rightarrow> (Inr str, w'))"

definition generateShortURL :: "write_result \<Rightarrow> world \<Rightarrow> (jserror + string) \<times> world" where
  "generateShortURL wr w =
     (case fs_readFile w of
        Inl err \<Rightarrow> (Inl err, w)
      | Inr count \<Rightarrow> readFile_cb wr count w)"

text \<open>Calls made one after the other: each starts when the one before has called back.\<close>

fun sequential_calls :: "write_result list \<Rightarrow> world \<Rightarrow> (jserror + string) list \<times> world" where
  "sequential_calls [] w = ([], w)"
| "sequential_calls (wr # wrs) w =
     (let (r, w') = generateShortURL wr w;
          (rs, w'') = sequential_calls wrs w'
      in (r # rs, w''))"

section \<open>checkURL, findURL, addURL\<close>

text \<open>
  \<^verbatim>\<open>
  function checkURL(method, url, cb) {
      method.get(url, function(response) {
          response.on("error", function(err) { return cb(err); });
          response.on("data", function() {}).on("end", function() { return cb(); });
      }).on("error", function(err) { return cb(err); });
  }
  \<close>
  \<open>checkURL\<close> probes the URL with \<open>http.get\<close> or \<open>https.get\<close> and calls \<open>cb(err)\<close> on an error
  of the request or of the response, \<open>cb()\<close> when the response ends. Nothing catches an
  exception of \<open>method.get\<close>: it leaves \<open>checkURL\<close> and the route before any callback
  (\<open>Check_threw\<close>). A probe is taken to call back once. \<open>checkURL\<close> touches neither the
  file nor the collection.
\<close>

datatype getter = Http | Https

datatype check_result = Check_threw | Check_cb "jserror option"

definition checkURL :: "env \<Rightarrow> getter \<Rightarrow> string \<Rightarrow> check_result" where
  "checkURL e method url =
     (case fetch e of
        Probe_throws \<Rightarrow> Check_threw
      | Probe_error \<Rightarrow> Check_cb (Some RequestError)
      | Probe_ok \<Rightarrow> Check_cb None)"

text \<open>
  \<^verbatim>\<open>
  function findURL(url, cb) {
      mongo.connect(process.env.MONGO_URI, function(err, db) {
          if (err) { db.close(); return cb(err); }
          var shorturls = db.collection('shorturls');
          shorturls.findOne({ original_url: url }, {_id: 0}, function(err, url) {
              db.close();
              if (err) { return cb(err); }
              else if (!url) { return cb(); }
              else { return cb(null, url); }
          });
      });
  }
  \<close>
  When the connection fails there is no \<open>db\<close>, and \<open>db.close()\<close> throws before \<open>cb\<close> is
  called: \<open>Find_threw\<close>.
\<close>

datatype find_result = Find_threw | Find_error jserror | Find_none | Find_doc doc

definition findOne :: "string \<Rightarrow> doc list \<Rightarrow> doc option" where
  "findOne url docs = find (\<lambda>d. original_url d = url) docs"

definition findURL :: "env \<Rightarrow> string \<Rightarrow> world \<Rightarrow> find_result" where
  "findURL e url w =
     (if find_connect_error e then Find_threw
      else if findOne_error e then Find_error QueryError
      else case findOne url (shorturls w) of
             None \<Rightarrow> Find_none
           | Some d \<Rightarrow> Find_doc d)"

text \<open>
  \<^verbatim>\<open>
  function addURL(url, cb) {
      mongo.connect(process.env.MONGO_URI, function(err, db) {
          if (err) { return cb(err); }
          var shorturls = db.collection('shorturls');
          generateShortURL(function(err, shortUrl) {
              if (err) { return cb(err); }
              shorturls.insert({ original_url: url, short_url: shortUrl }, function(err, data) {
                  db.close();
                  if (err) { return cb(err); }
                  var url = data.ops[0];
                  delete url._id;
                  return cb(null, url);
              });
          });
      });
  }
  \<close>
  \<open>insert_doc\<close> is the insert and its callback. The program creates no index on the
  collection, so an insert never looks at the documents already there.
\<close>

definition insert_doc :: "env \<Rightarrow> string \<Rightarrow> string \<Rightarrow> world \<Rightarrow> (jserror + doc) \<times> world" where
  "insert_doc e url shortUrl w =
     (if insert_error e then (Inl InsertError, w)
      else let d = \<lparr>original_url = url, short_url = shortUrl\<rparr>
           in (Inr d, w\<lparr>shorturls := shorturls w @ [d]\<rparr>))"

definition addURL :: "env \<Rightarrow> string \<Rightarrow> world \<Rightarrow> (jserror + doc) \<times> world" where
  "addURL e url w =
     (if add_connect_error e then (Inl ConnectError, w)
      else case generateShortURL (write_outcome e) w of
             (Inl err, w') \<Rightarrow> (Inl err, w')
           | (Inr shortUrl, w') \<Rightarrow> insert_doc e url shortUrl w')"

section \<open>The route /new/*\<close>

text \<open>
  A reply is the status and the body sent, or the exception that escapes \<open>findURL\<close> in a
  callback. \<open>res.json\<close> without \<open>res.status\<close> sends status 200. An exception that leaves the
  route itself is caught by Express, which answers with status 500 and its own page for
  the error (\<open>Error_page\<close>).
\<close>

datatype body = Text string | Json doc | Error_page

datatype reply = Reply nat body | Uncaught_TypeError

definition with_host :: "string \<Rightarrow> doc \<Rightarrow> doc" where
  "with_host host d = d\<lparr>short_url := host @ ''/'' @ short_url d\<rparr>"

definition invalid_reply :: reply where
  "invalid_reply = Reply 404 (Text ''An error occurred. Is the URL you entered valid?'')"

definition database_reply :: reply where
  "database_reply =
     Reply 500 (Text ''An error occurred connecting to database. Please try again later.'')"

definition scheme_reply :: reply where
  "scheme_reply =
     Reply 500 (Text
       ''The URL you entered is invalid. Please make sure it begins with http:// or https://'')"

definition express_reply :: reply where
  "express_reply = Reply 500 Error_page"

definition add_reply :: "string \<Rightarrow> jserror + doc \<Rightarrow> reply" where
  "add_reply host r =
     (case r of
        Inl err \<Rightarrow> Reply 500 (Text ''An error occurred'')
      | Inr d \<Rightarrow> Reply 200 (Json (with_host host d)))"

text \<open>
  \<^verbatim>\<open>
  function cb(err) {
      if (err) { return res.status(404).end('An error occurred. Is the URL you entered valid?'); }
      findURL(url, function(err, _url) {
          if (err) { return res.status(500).end('An error occurred connecting to database. ...'); }
          else if (!_url) {
              addURL(url, function(err, _url) {
                  if (err) { console.log(err); return res.status(500).end("An error occurred"); }
                  _url.short_url = req.headers.host + "/" + _url.short_url;
                  return res.status(200).json(_url);
              });
          } else {
              _url.short_url = req.headers.host + "/" + _url.short_url;
              return res.json(_url);
          }
      });
  }
  \<close>
\<close>

definition cb :: "env \<Rightarrow> string \<Rightarrow> string \<Rightarrow> jserror option \<Rightarrow> world \<Rightarrow> reply \<times> world" where
  "cb e host url err w =
     (case err of
        Some _ \<Rightarrow> (invalid_reply, w)
      | None \<Rightarrow>
          (case findURL e url w of
             Find_threw \<Rightarrow> (Uncaught_TypeError, w)
           | Find_error _ \<Rightarrow> (database_reply, w)
           | Find_none \<Rightarrow> (case addURL e url w of (r, w') \<Rightarrow> (add_reply host r, w'))
           | Find_doc d \<Rightarrow> (Reply 200 (Json (with_host host d)), w)))"

text \<open>
  \<^verbatim>\<open>
  app.get('/new/*', function(req, res) {
      var url = req.path.substr(5);
      ...
      if (url.substr(0,8) == 'https://') { checkURL(https, url, cb); }
      else if (url.substr(0, 7) == 'http://') { checkURL(http, url, cb); }
      else { return res.status(500).end("The URL you entered is invalid. ..."); }
  });
  \<close>
  The call of \<open>checkURL\<close> either throws, and Express answers, or \<open>cb\<close> is called later with
  the outcome of the probe.
\<close>

definition checked :: "env \<Rightarrow> string \<Rightarrow> string \<Rightarrow> check_result \<Rightarrow> world \<Rightarrow> reply \<times> world" where
  "checked e host url c w =
     (case c of
        Check_threw \<Rightarrow> (express_reply, w)
      | Check_cb err \<Rightarrow> cb e host url err w)"

definition new_route :: "env \<Rightarrow> string \<Rightarrow> string \<Rightarrow> world \<Rightarrow> reply \<times> world" where
  "new_route e host path w =
     (let url = drop 5 path
      in if take 8 url = ''https://'' then checked e host url (checkURL e Https url) w
         else if take 7 url = ''http://'' then checked e host url (checkURL e Http url) w
         else (scheme_reply, w))"

section \<open>Interleaved requests\<close>

text \<open>
  Every \<open>fs\<close> and \<open>mongo\<close> call of the program is asynchronous: the call returns at once and
  its callback runs later, and between the two the callbacks of other requests run. One
  step below is one asynchronous call with the callback that follows it: it reads or writes
  the shared state at most once. A schedule is the order in which the steps of the pending
  calls happen.

  For \<open>generateShortURL\<close> the two steps are the read of \<open>./count\<close> and the write of the
  incremented count.
\<close>

datatype gen_pc = Gen_start | Gen_read jsnum | Gen_done "jserror + string"

fun gen_step :: "write_result \<Rightarrow> gen_pc \<Rightarrow> world \<Rightarrow> gen_pc \<times> world" where
  "gen_step wr Gen_start w =
     (case fs_readFile w of
        Inl err \<Rightarrow> (Gen_done (Inl err), w)
      | Inr count \<Rightarrow> (Gen_read count, w))"
| "gen_step wr (Gen_read count) w = (case readFile_cb wr count w of (r, w') \<Rightarrow> (Gen_done r, w'))"
| "gen_step wr (Gen_done r) w = (Gen_done r, w)"

text \<open>
  Several calls of \<open>generateShortURL\<close> in flight: each with the outcome of its write and
  its position. \<open>gen_fire i\<close> lets call \<open>i\<close> take its next step.
\<close>

definition gen_fire :: "nat \<Rightarrow> world \<times> (write_result \<times> gen_pc) list
    \<Rightarrow> world \<times> (write_result \<times> gen_pc) list" where
  "gen_fire i c =
     (case c of (w, calls) \<Rightarrow>
        if i < length calls
        then (case calls ! i of (wr, pc) \<Rightarrow>
                (case gen_step wr pc w of (pc', w') \<Rightarrow> (w', calls[i := (wr, pc')])))
        else (w, calls))"

definition gen_run :: "nat list \<Rightarrow> world \<times> (write_result \<times> gen_pc) list
    \<Rightarrow> world \<times> (write_result \<times> gen_pc) list" where
  "gen_run schedule c = fold gen_fire schedule c"

text \<open>
  A request to \<open>/new/*\<close>: arrived, probing the URL, looking the URL up, allocating a code
  (inside \<open>generateShortURL\<close>), inserting the document, answered. The route calls
  \<open>method.get\<close> itself, so a probe that throws ends the request in its first step.
\<close>

datatype pc =
    Arrived string
  | Checking string getter
  | Finding string
  | Allocating string gen_pc
  | Inserting string string
  | Answered reply

fun step :: "env \<Rightarrow> string \<Rightarrow> pc \<Rightarrow> world \<Rightarrow> pc \<times> world" where
  "step e host (Arrived path) w =
     (let url = drop 5 path
      in if take 8 url = ''https://'' then
           (case checkURL e Https url of
              Check_threw \<Rightarrow> (Answered express_reply, w)
            | Check_cb _ \<Rightarrow> (Checking url Https, w))
         else if take 7 url = ''http://'' then
           (case checkURL e Http url of
              Check_threw \<Rightarrow> (Answered express_reply, w)
            | Check_cb _ \<Rightarrow> (Checking url Http, w))
         else (Answered scheme_reply, w))"
| "step e host (Checking url method) w =
     (case checkURL e method url of
        Check_threw \<Rightarrow> (Answered express_reply, w)
      | Check_cb (Some _) \<Rightarrow> (Answered invalid_reply, w)
      | Check_cb None \<Rightarrow> (Finding url, w))"
| "step e host (Finding url) w =
     (case findURL e url w of
        Find_threw \<Rightarrow> (Answered Uncaught_TypeError, w)
      | Find_error _ \<Rightarrow> (Answered database_reply, w)
      | Find_none \<Rightarrow>
          (if add_connect_error e then (Answered (add_reply host (Inl ConnectError)), w)
           else (Allocating url Gen_start, w))
      | Find_doc d \<Rightarrow> (Answered (Reply 200 (Json (with_host host d))), w))"
| "step e host (Allocating url g) w =
     (case gen_step (write_outcome e) g w of
        (Gen_done (Inl err), w') \<Rightarrow> (Answered (add_reply host (Inl err)), w')
      | (Gen_done (Inr shortUrl), w') \<Rightarrow> (Inserting url shortUrl, w')
      | (g', w') \<Rightarrow> (Allocating url g', w'))"
| "step e host (Inserting url shortUrl) w =
     (case insert_doc e url shortUrl w of (r, w') \<Rightarrow> (Answered (add_reply host r), w'))"
| "step e host (Answered r) w = (Answered r, w)"

record request =
  req_env :: env
  req_host :: string
  req_pc :: pc

definition fire :: "nat \<Rightarrow> world \<times> request list \<Rightarrow> world \<times> request list" where
  "fire i c =
     (case c of (w, reqs) \<Rightarrow>
        if i < length reqs
        then (let r = reqs ! i
              in case step (req_env r) (req_host r) (req_pc r) w of
                   (pc', w') \<Rightarrow> (w', reqs[i := r\<lparr>req_pc := pc'\<rparr>]))
        else (w, reqs))"

definition run :: "nat list \<Rightarrow> world \<times> request list \<Rightarrow> world \<times> request list" where
  "run schedule c = fold fire schedule c"

text \<open>
  The schedule in which the calls \<open>k, k + 1, ..., k + n - 1\<close> of \<open>generateShortURL\<close> run one
  after the other: each call takes its two steps before the next call takes its first.
\<close>

definition sequential_schedule :: "nat \<Rightarrow> nat \<Rightarrow> nat list" where
  "sequential_schedule k n = concat (map (\<lambda>i. [i, i]) [k..<k + n])"

text \<open>\<open>n\<close> steps of one request with no step of another request in between.\<close>

fun steps :: "nat \<Rightarrow> env \<Rightarrow> string \<Rightarrow> pc \<Rightarrow> world \<Rightarrow> pc \<times> world" where
  "steps 0 e host p w = (p, w)"
| "steps (Suc n) e host p w = (case step e host p w of (p', w') \<Rightarrow> steps n e host p' w')"

text \<open>The environment in which nothing fails.\<close>

definition all_ok :: env where
  "all_ok = \<lparr>fetch = Probe_ok, find_connect_error = False, findOne_error = False,
     add_connect_error = False, write_outcome = Written, insert_error = False\<rparr>"

section \<open>Properties of the Number arithmetic\<close>

lemma nearest_double_exact: "a \<le> 2 ^ 53 \<Longrightarrow> nearest_double a 1 = a"
proof (cases "a = 2 ^ 53")
  case True
  have "floorlog 2 (1 * 2 ^ 53) = floorlog 2 1 + 53"
    by (rule floorlog_power) simp_all
  then have "floorlog 2 (2 ^ 53 :: nat) = 54"
    by (simp add: floorlog_def)
  then show ?thesis
    using True by (simp add: nearest_double_def round_half_even_def Let_def)
next
  case False
  assume "a \<le> 2 ^ 53"
  with False have "a < 2 ^ 53" by simp
  then have "floorlog 2 a \<le> 53"
    by (simp add: floorlog_le_iff)
  then show ?thesis
    by (simp add: nearest_double_def round_half_even_def Let_def)
qed

lemma round_half_even_scale:
  assumes "0 < z"
  shows "round_half_even (x * z) (c * z) = round_half_even x c"
proof -
  have "(x * z) mod (c * z) = (x mod c) * z"
    by (simp add: mult_mod_left)
  moreover have "(x * z) div (c * z) = x div c"
    using assms by simp
  ultimately show ?thesis
    using assms by (simp add: round_half_even_def Let_def)
qed

lemma round_half_even_div_exact:
  assumes "64 \<le> T"
  shows "round_half_even (n * T) 83 div T = n div 83"
proof -
  define j where "j = n div 83"
  define i where "i = n mod 83"
  define d where "d = (i * T) div 83"
  define r where "r = (i * T) mod 83"
  have n: "n = 83 * j + i" and i: "i < 83"
    by (simp_all add: j_def i_def)
  have y: "i * T = 83 * d + r" and r: "r < 83"
    by (simp_all add: d_def r_def)
  have "i * T \<le> 82 * T"
    using i by (intro mult_le_mono1) simp
  with y have y82: "83 * d + r \<le> 82 * T"
    by simp
  have nT: "n * T = 83 * (j * T + d) + r"
    using y by (simp add: n algebra_simps)
  have k: "(n * T) div 83 = j * T + d"
    using r by (simp add: nT)
  have "(83 * (j * T + d) + r) mod 83 = r mod 83"
    by (rule mod_mult_self4)
  then have m: "(n * T) mod 83 = r"
    using r by (simp only: nT mod_less)
  define M where "M = round_half_even (n * T) 83"
  have lower: "j * T \<le> M"
    unfolding M_def round_half_even_def Let_def k m by simp
  have upper: "M < Suc j * T"
  proof (cases "83 < 2 * r")
    case True
    then have "M = j * T + d + 1"
      unfolding M_def round_half_even_def Let_def k m by simp
    moreover have "d + 1 < T"
      using y82 True assms by simp
    ultimately show ?thesis by simp
  next
    case False
    then have "M = j * T + d"
      unfolding M_def round_half_even_def Let_def k m using r by (simp; presburger)
    moreover have "d < T"
      using y82 assms by simp
    ultimately show ?thesis by simp
  qed
  have "M div T = j"
    using lower upper by (intro div_nat_eqI) (simp_all add: mult.commute)
  then show ?thesis
    by (simp add: M_def j_def)
qed

lemma floor_div_exact:
  assumes "n \<le> 2 ^ 53"
  shows "nearest_double (n * 2 ^ 64) 83 div 2 ^ 64 = n div 83"
proof -
  define q where "q = (n * 2 ^ 64) div 83"
  define s where "s = floorlog 2 q - 53"
  define t where "t = 64 - s"
  have "n * 2 ^ 64 \<le> 2 ^ 53 * 2 ^ 64"
    using assms by (rule mult_le_mono1)
  then have "n * 2 ^ 64 < 83 * 2 ^ 111"
    by simp
  then have "q < 2 ^ 111"
    unfolding q_def by (simp add: less_mult_imp_div_less mult.commute)
  then have "floorlog 2 q \<le> 111"
    by (simp add: floorlog_le_iff)
  then have s: "s \<le> 58"
    by (simp add: s_def)
  then have p: "(2::nat) ^ 64 = 2 ^ t * 2 ^ s"
    unfolding t_def by (simp add: power_add [symmetric])
  have T: "(64::nat) \<le> 2 ^ t"
  proof -
    have "(2::nat) ^ 6 \<le> 2 ^ t"
      using s by (intro power_increasing) (simp_all add: t_def)
    then show ?thesis by simp
  qed
  have "nearest_double (n * 2 ^ 64) 83 = round_half_even (n * 2 ^ 64) (83 * 2 ^ s) * 2 ^ s"
    by (simp add: nearest_double_def Let_def q_def s_def)
  also have "\<dots> = round_half_even (n * 2 ^ t * 2 ^ s) (83 * 2 ^ s) * 2 ^ s"
    by (simp only: p mult.assoc)
  also have "\<dots> = round_half_even (n * 2 ^ t) 83 * 2 ^ s"
    by (simp add: round_half_even_scale)
  finally have "nearest_double (n * 2 ^ 64) 83 div 2 ^ 64 =
      (round_half_even (n * 2 ^ t) 83 * 2 ^ s) div (2 ^ t * 2 ^ s)"
    by (simp only: p)
  also have "\<dots> = round_half_even (n * 2 ^ t) 83 div 2 ^ t"
    by simp
  also have "\<dots> = n div 83"
    using T by (rule round_half_even_div_exact)
  finally show ?thesis .
qed

lemma asciiRange_eq: "asciiRange = 83"
  by (simp add: asciiRange_def urlChars_def)

lemma js_floor_div_exact:
  assumes "n \<le> MAX_EXACT"
  shows "js_floor_div (Num n) asciiRange = Num (n div asciiRange)"
proof -
  have "n \<le> 2 ^ 53"
    using assms by (simp only: MAX_EXACT_def)
  then have "nearest_double (n * 2 ^ 64) 83 div 2 ^ 64 = n div 83"
    by (rule floor_div_exact)
  then show ?thesis
    by (simp only: js_floor_div.simps asciiRange_eq floor_div_def)
qed

lemma js_add_exact:
  assumes "n + k \<le> MAX_EXACT"
  shows "js_add (Num n) k = Num (n + k)"
proof -
  have "n + k \<le> 2 ^ 53"
    using assms by (simp only: MAX_EXACT_def)
  then have "nearest_double (n + k) 1 = n + k"
    by (rule nearest_double_exact)
  then show ?thesis
    by (simp only: js_add.simps)
qed

lemma js_incr_exact:
  assumes "n < MAX_EXACT"
  shows "js_incr (Num n) = Num (Suc n)"
proof -
  have "n + 1 \<le> MAX_EXACT"
    using assms by simp
  then have "js_add (Num n) 1 = Num (n + 1)"
    by (rule js_add_exact)
  then show ?thesis
    by (simp add: js_incr_def del: js_add.simps)
qed

lemma js_incr_MAX_EXACT: "js_incr (Num MAX_EXACT) = Num MAX_EXACT"
proof -
  have "floorlog 2 (1 * 2 ^ 53) = floorlog 2 1 + 53"
    by (rule floorlog_power) simp_all
  then have "floorlog 2 (2 ^ 53) = 54"
    by (simp add: floorlog_def)
  moreover have "floorlog 2 (2 ^ 53 + 1) = floorlog 2 (2 ^ 53)"
    by (rule floorlog_eq_if) simp_all
  ultimately have "floorlog 2 (2 ^ 53 + 1) - 53 = 1"
    by simp
  then have "nearest_double (2 ^ 53 + 1) 1 = 2 ^ 53"
    unfolding nearest_double_def Let_def div_by_1
    by (simp add: round_half_even_def Let_def)
  then show ?thesis
    by (simp only: js_incr_def js_add.simps MAX_EXACT_def)
qed

lemma js_incr_NaN: "js_incr NaN = NaN"
  by (simp add: js_incr_def)

lemma is_double_exact:
  assumes "n \<le> MAX_EXACT"
  shows "is_double n"
proof -
  have "n \<le> 2 ^ 53"
    using assms by (simp only: MAX_EXACT_def)
  then have "nearest_double n 1 = n"
    by (rule nearest_double_exact)
  then show ?thesis
    by (simp only: is_double_def)
qed

section \<open>Properties of the code generator\<close>

lemma distinct_urlChars: "distinct urlChars"
  by (simp add: urlChars_def)

lemma do_while_Num:
  assumes "n \<le> MAX_EXACT"
  shows "do_while (Num n) str =
     (if 0 < n div asciiRange
      then do_while (Num (n div asciiRange)) (urlChars ! (n mod asciiRange) # str)
      else urlChars ! (n mod asciiRange) # str)"
proof -
  have less: "n mod asciiRange < length urlChars"
    by (simp add: asciiRange_def urlChars_def)
  then have "n mod asciiRange + asciiMin \<le> MAX_EXACT"
    by (simp add: asciiMin_def MAX_EXACT_def urlChars_def)
  then have "js_add (js_mod (Num n) asciiRange) asciiMin = Num (n mod asciiRange)"
    by (simp add: js_add_exact asciiMin_def del: js_add.simps)
  then show ?thesis
    using less assms
    by (subst do_while.simps)
      (simp add: Let_def js_floor_div_exact del: js_add.simps js_mod.simps js_floor_div.simps)
qed

lemma div_asciiRange_le: "n \<le> MAX_EXACT \<Longrightarrow> n div asciiRange \<le> MAX_EXACT"
  by (rule order_trans [OF div_le_dividend])

lemma do_while_NaN: "do_while NaN str = ''undefined'' @ str"
  by (subst do_while.simps) (simp add: Let_def asciiMin_def)

lemma do_while_spec_digits:
  "n \<le> MAX_EXACT \<Longrightarrow>
   do_while (Num n) str = map (\<lambda>d. urlChars ! d) (rev (spec_digits n)) @ str"
proof (induction n arbitrary: str rule: spec_digits.induct)
  case (1 v)
  note bound = \<open>v \<le> MAX_EXACT\<close>
  show ?case
  proof (cases "v div asciiRange = 0")
    case True
    then show ?thesis
      by (subst do_while_Num [OF bound], subst spec_digits.simps) simp
  next
    case False
    then have "do_while (Num v) str =
        do_while (Num (v div asciiRange)) (urlChars ! (v mod asciiRange) # str)"
      by (subst do_while_Num [OF bound]) simp
    also have "\<dots> = map (\<lambda>d. urlChars ! d) (rev (spec_digits (v div asciiRange)))
        @ urlChars ! (v mod asciiRange) # str"
      using False bound by (intro "1.IH" div_asciiRange_le)
    also have "\<dots> = map (\<lambda>d. urlChars ! d) (rev (spec_digits v)) @ str"
      using False by (subst (2) spec_digits.simps) simp
    finally show ?thesis .
  qed
qed

lemma spec_digits_bound: "d \<in> set (spec_digits n) \<Longrightarrow> d < asciiRange"
proof (induction n rule: spec_digits.induct)
  case (1 v)
  from "1.prems" have "d = v mod asciiRange \<or> (v div asciiRange \<noteq> 0 \<and> d \<in> set (spec_digits (v div asciiRange)))"
    by (subst (asm) spec_digits.simps) (auto split: if_splits)
  then show ?case
    using "1.IH" by (auto simp: asciiRange_eq)
qed

lemma digits_value_spec_digits: "digits_value (spec_digits n) = n"
proof (induction n rule: spec_digits.induct)
  case (1 v)
  show ?case
  proof (cases "v div asciiRange = 0")
    case True
    then have "v < asciiRange"
      by (simp add: asciiRange_eq div_eq_0_iff)
    then have "v mod asciiRange = v"
      by simp
    with True show ?thesis
      by (subst spec_digits.simps) simp
  next
    case False
    with "1.IH" show ?thesis
      by (subst spec_digits.simps) simp
  qed
qed

lemma map_urlChars_inj:
  assumes "map (\<lambda>d. urlChars ! d) xs = map (\<lambda>d. urlChars ! d) ys"
    and "\<forall>d \<in> set xs. d < asciiRange" and "\<forall>d \<in> set ys. d < asciiRange"
  shows "xs = ys"
proof -
  have "inj_on (\<lambda>d. urlChars ! d) {..<asciiRange}"
    using distinct_urlChars
    by (auto simp: inj_on_def asciiRange_def nth_eq_iff_index_eq)
  moreover have "set xs \<subseteq> {..<asciiRange}" "set ys \<subseteq> {..<asciiRange}"
    using assms(2,3) by auto
  ultimately show ?thesis
    using assms(1) by (meson inj_on_map_eq_map inj_on_subset Un_least inj_on_Un)
qed

lemma generate_str_inj:
  assumes "generate_str (Num n1) = generate_str (Num n2)"
    and "n1 \<le> MAX_EXACT" and "n2 \<le> MAX_EXACT"
  shows "n1 = n2"
proof -
  from assms have "map (\<lambda>d. urlChars ! d) (rev (spec_digits n1))
      = map (\<lambda>d. urlChars ! d) (rev (spec_digits n2))"
    by (simp add: generate_str_def do_while_spec_digits)
  then have "rev (spec_digits n1) = rev (spec_digits n2)"
    by (rule map_urlChars_inj) (auto dest: spec_digits_bound)
  then have "digits_value (spec_digits n1) = digits_value (spec_digits n2)"
    by simp
  then show ?thesis
    by (simp add: digits_value_spec_digits)
qed

lemma length_spec_digits_small: "n < asciiRange \<Longrightarrow> length (spec_digits n) = 1"
  by (subst spec_digits.simps) simp

lemma length_spec_digits_step:
  "asciiRange \<le> n \<Longrightarrow> length (spec_digits n) = Suc (length (spec_digits (n div asciiRange)))"
proof -
  assume "asciiRange \<le> n"
  then have "n div asciiRange \<noteq> 0"
    by (simp add: asciiRange_eq div_eq_0_iff)
  then show ?thesis
    by (subst spec_digits.simps) simp
qed

lemma length_generate_str:
  "n \<le> MAX_EXACT \<Longrightarrow> length (generate_str (Num n)) = length (spec_digits n)"
  by (simp add: generate_str_def do_while_spec_digits)

text \<open>
  C4, as amended. For every counter value \<open>n\<close> up to \<open>2 ^ 53\<close>, where the arithmetic of the
  loop is exact, the loop of \<open>generateShortURL\<close> returns the string of the specification's
  algorithm: the digits \<open>n mod A\<close>, then those of \<open>n div A\<close>, until the quotient is 0, written
  most significant first. No digit is dropped (the code has as many characters as there are
  digits), and the code of 0 is the one character at index 0.
\<close>

theorem generate_str_refines_spec:
  assumes "n \<le> MAX_EXACT"
  shows "generate_str (Num n) = spec_generate n
   \<and> length (generate_str (Num n)) = length (spec_digits n)
   \<and> digits_value (spec_digits n) = n
   \<and> generate_str (Num 0) = [urlChars ! 0]"
proof -
  have a: "generate_str (Num n) = spec_generate n"
    using assms by (simp add: generate_str_def spec_generate_def do_while_spec_digits)
  have "(0::nat) \<le> MAX_EXACT"
    by simp
  then have b: "generate_str (Num 0) = [urlChars ! 0]"
    by (simp add: generate_str_def do_while_Num)
  show ?thesis
    using assms
    by (intro conjI) (rule a length_generate_str digits_value_spec_digits b | assumption)+
qed

theorem generate_str_refines_spec_witness:
  "(6889::nat) \<le> MAX_EXACT
   \<and> generate_str (Num 6889) = spec_generate 6889
   \<and> generate_str (Num 6889) = ''211''"
proof -
  have "spec_generate 6889 = ''211''"
    by (simp add: spec_generate_def spec_digits.simps asciiRange_eq) (simp add: urlChars_def)
  moreover have "(6889::nat) \<le> MAX_EXACT"
    by (simp add: MAX_EXACT_def)
  ultimately show ?thesis
    using generate_str_refines_spec [of 6889] by simp
qed

lemma floorlog_eqI:
  assumes "2 ^ L \<le> q" and "q < 2 * 2 ^ L"
  shows "floorlog 2 q = Suc L"
proof -
  have "floorlog 2 q \<le> Suc L"
    using assms(2) by (simp add: floorlog_le_iff)
  moreover have "Suc L \<le> floorlog 2 q"
    using assms(1) by (intro floorlog_ge_SucI) simp_all
  ultimately show ?thesis by simp
qed

lemma spec_generate_above: "spec_generate 11681211533492306 = ''6yE_SXTp/''"
  by (simp add: spec_generate_def spec_digits.simps asciiRange_eq) (simp add: urlChars_def)

lemma js_floor_div_above:
  "js_floor_div (Num 11681211533492306) asciiRange = Num 140737488355329"
proof -
  have "floorlog 2 (11681211533492306 * 2 ^ 64 div 83) = Suc 111"
    by (rule floorlog_eqI) simp_all
  then show ?thesis
    by (simp add: asciiRange_eq floor_div_def nearest_double_def round_half_even_def Let_def)
qed

lemma is_double_divergence: "is_double 11681211533492306"
proof -
  have "floorlog 2 11681211533492306 = Suc 53"
    by (rule floorlog_eqI) simp_all
  then show ?thesis
    by (simp add: is_double_def nearest_double_def round_half_even_def Let_def)
qed

lemma generate_str_above: "generate_str (Num 11681211533492306) = ''6yE_SXTa/''"
proof -
  have a: "js_add (js_mod (Num 11681211533492306) asciiRange) asciiMin = Num 82"
    by (simp add: asciiRange_eq asciiMin_def js_add_exact MAX_EXACT_def del: js_add.simps)
  have c: "js_index urlChars (Num 82) = Some ''/''"
    by (simp add: urlChars_def)
  have "do_while (Num 11681211533492306) [] = do_while (Num 140737488355329) ''/''"
    by (subst do_while.simps)
      (simp add: a js_floor_div_above c Let_def
        del: js_add.simps js_mod.simps js_floor_div.simps js_index.simps)
  also have "\<dots> = map (\<lambda>d. urlChars ! d) (rev (spec_digits 140737488355329)) @ ''/''"
    by (rule do_while_spec_digits) (simp add: MAX_EXACT_def)
  also have "\<dots> = ''6yE_SXTa/''"
    by (simp add: spec_digits.simps asciiRange_eq) (simp add: urlChars_def)
  finally show ?thesis
    by (simp only: generate_str_def)
qed

text \<open>
  C4 as stated fails above \<open>2 ^ 53\<close>. The counter value 11681211533492306
  (\<open>83 * 2 ^ 47 + 82\<close>) is a Number; the Number nearest to its quotient by 83 is the next
  integer, \<open>2 ^ 47 + 1\<close>, so \<open>Math.floor\<close> does not give the integer quotient \<open>2 ^ 47\<close>, and the
  loop returns a string that differs from the string of the specification's algorithm in
  the second character from the end.
\<close>

theorem generate_str_refines_spec_counterexample:
  "is_double 11681211533492306
   \<and> generate_str (Num 11681211533492306) = ''6yE_SXTa/''
   \<and> spec_generate 11681211533492306 = ''6yE_SXTp/''
   \<and> generate_str (Num 11681211533492306) \<noteq> spec_generate 11681211533492306"
  by (simp add: is_double_divergence generate_str_above spec_generate_above)

section \<open>Numbers beyond the exact range\<close>

lemma round_half_even_le: "round_half_even a c \<le> a div c + 1"
  by (simp add: round_half_even_def Let_def)

lemma round_half_even_ge: "a div c \<le> round_half_even a c"
  by (simp add: round_half_even_def Let_def)

lemma round_half_even_exact: "0 < c \<Longrightarrow> round_half_even (m * c) c = m"
  by (simp add: round_half_even_def Let_def)

lemma round_half_even_upper:
  assumes "0 < c" and "a \<le> m * c"
  shows "round_half_even a c \<le> m"
proof (cases "a = m * c")
  case True
  then show ?thesis
    using assms(1) by (simp add: round_half_even_exact)
next
  case False
  with assms(2) have "a < m * c" by simp
  then have "a div c < m"
    using assms(1) by (simp add: less_mult_imp_div_less)
  then show ?thesis
    using round_half_even_le [of a c] by simp
qed

text \<open>The Numbers are the integers that are a multiple of their unit in the last place.\<close>

lemma is_double_iff: "is_double x \<longleftrightarrow> 2 ^ (floorlog 2 x - 53) dvd x"
proof
  assume "is_double x"
  then have "x = round_half_even x (2 ^ (floorlog 2 x - 53)) * 2 ^ (floorlog 2 x - 53)"
    by (simp add: is_double_def nearest_double_def Let_def)
  then show "2 ^ (floorlog 2 x - 53) dvd x"
    by (metis dvd_triv_right)
next
  assume "2 ^ (floorlog 2 x - 53) dvd x"
  then obtain m where "x = m * 2 ^ (floorlog 2 x - 53)"
    by (auto simp: dvd_def mult.commute)
  then have "round_half_even x (2 ^ (floorlog 2 x - 53)) * 2 ^ (floorlog 2 x - 53) = x"
    using round_half_even_exact [of "2 ^ (floorlog 2 x - 53)" m] by simp
  then show "is_double x"
    by (simp add: is_double_def nearest_double_def Let_def)
qed

lemma is_double_below:
  assumes "2 ^ (floorlog 2 y - 53) dvd x" and "x \<le> y"
  shows "is_double x"
proof -
  have "floorlog 2 x - 53 \<le> floorlog 2 y - 53"
    using assms(2) by (simp add: floorlog_mono diff_le_mono)
  then have "(2::nat) ^ (floorlog 2 x - 53) dvd 2 ^ (floorlog 2 y - 53)"
    by (rule le_imp_power_dvd)
  then show ?thesis
    using assms(1) by (auto simp: is_double_iff intro: dvd_trans)
qed

lemma is_double_above:
  assumes "is_double d" and "x \<le> d"
  shows "2 ^ (floorlog 2 x - 53) dvd d"
proof -
  have "floorlog 2 x - 53 \<le> floorlog 2 d - 53"
    using assms(2) by (simp add: floorlog_mono diff_le_mono)
  then have "(2::nat) ^ (floorlog 2 x - 53) dvd 2 ^ (floorlog 2 d - 53)"
    by (rule le_imp_power_dvd)
  then show ?thesis
    using assms(1) by (auto simp: is_double_iff intro: dvd_trans)
qed

lemma nearest_double_le_double:
  assumes "0 < b" and "is_double d" and "a \<le> d * b"
  shows "nearest_double a b \<le> d"
proof -
  define s where "s = floorlog 2 (a div b) - 53"
  have "a div b \<le> d"
    using assms(1,3) by (metis div_le_mono nonzero_mult_div_cancel_right less_numeral_extra(3))
  then have "2 ^ s dvd d"
    unfolding s_def using assms(2) by (intro is_double_above)
  then obtain m where d: "d = m * 2 ^ s"
    by (auto simp: dvd_def mult.commute)
  have "a \<le> m * (b * 2 ^ s)"
    using assms(3) by (simp add: d mult_ac)
  then have "round_half_even a (b * 2 ^ s) \<le> m"
    using assms(1) by (intro round_half_even_upper) simp_all
  then have "round_half_even a (b * 2 ^ s) * 2 ^ s \<le> m * 2 ^ s"
    by (rule mult_le_mono1)
  then show ?thesis
    by (simp add: nearest_double_def Let_def s_def [symmetric] d)
qed

lemma nearest_double_ge_double:
  assumes "0 < b" and "is_double d" and "d * b \<le> a"
  shows "d \<le> nearest_double a b"
proof -
  define q where "q = a div b"
  define L where "L = floorlog 2 q"
  define s where "s = L - 53"
  have dq: "d \<le> q"
    unfolding q_def using assms(1,3) by (simp add: less_eq_div_iff_mult_less_eq)
  have "d \<le> q div 2 ^ s * 2 ^ s"
  proof (cases "floorlog 2 d = L")
    case True
    then have "2 ^ s dvd d"
      using assms(2) by (simp add: is_double_iff s_def)
    then obtain m where d: "d = m * 2 ^ s"
      by (auto simp: dvd_def mult.commute)
    then have "m \<le> q div 2 ^ s"
      using dq by (simp add: less_eq_div_iff_mult_less_eq)
    then show ?thesis
      by (simp add: d)
  next
    case False
    moreover have "floorlog 2 d \<le> L"
      unfolding L_def using dq by (rule floorlog_mono)
    ultimately have less: "floorlog 2 d \<le> L - 1" and L: "0 < L"
      by simp_all
    then have "0 < q"
      unfolding L_def by (cases "q = 0") (simp_all add: floorlog_def)
    then have low: "2 ^ (L - 1) \<le> q"
      unfolding L_def using floorlog_bounds [of q 2] by simp
    have "d < 2 ^ (L - 1)"
      using less by (simp add: floorlog_le_iff)
    moreover have "2 ^ (L - 1) \<le> q div 2 ^ s * 2 ^ s"
    proof -
      have "s \<le> L - 1"
        by (simp add: s_def)
      then have "(2::nat) ^ (L - 1) = 2 ^ (L - 1 - s) * 2 ^ s"
        by (simp add: power_add [symmetric])
      moreover from this have "2 ^ (L - 1 - s) \<le> q div 2 ^ s"
        using low by (simp add: less_eq_div_iff_mult_less_eq)
      ultimately show ?thesis
        by (metis mult_le_mono1)
    qed
    ultimately show ?thesis by simp
  qed
  also have "\<dots> = a div (b * 2 ^ s) * 2 ^ s"
    by (simp add: q_def div_mult2_eq)
  also have "\<dots> \<le> round_half_even a (b * 2 ^ s) * 2 ^ s"
    by (intro mult_le_mono1 round_half_even_ge)
  finally show ?thesis
    by (simp add: nearest_double_def Let_def s_def L_def q_def)
qed

lemma is_double_mult:
  assumes "m \<le> 2 ^ 53"
  shows "is_double (m * 2 ^ s)"
proof (cases "m = 2 ^ 53")
  case True
  have "floorlog 2 (1 * 2 ^ (53 + s)) = floorlog 2 1 + (53 + s)"
    by (rule floorlog_power) simp_all
  then have "floorlog 2 (2 ^ 53 * 2 ^ s) - 53 = Suc s"
    by (simp add: floorlog_def power_add)
  then show ?thesis
    by (simp add: is_double_iff True)
next
  case False
  with assms have "m < 2 ^ 53" by simp
  then have "m * 2 ^ s < 2 ^ 53 * 2 ^ s"
    by simp
  then have "floorlog 2 (m * 2 ^ s) \<le> 53 + s"
    by (simp add: floorlog_le_iff power_add)
  then have "floorlog 2 (m * 2 ^ s) - 53 \<le> s"
    by simp
  then have "(2::nat) ^ (floorlog 2 (m * 2 ^ s) - 53) dvd 2 ^ s"
    by (rule le_imp_power_dvd)
  then show ?thesis
    by (simp add: is_double_iff)
qed

lemma nearest_double_is_double:
  assumes "0 < b"
  shows "is_double (nearest_double a b)"
proof -
  define q where "q = a div b"
  define s where "s = floorlog 2 q - 53"
  have "floorlog 2 q \<le> 53 + s"
    by (simp add: s_def)
  then have "q < 2 ^ 53 * 2 ^ s"
    by (simp add: floorlog_le_iff power_add)
  then have "q div 2 ^ s < 2 ^ 53"
    by (simp add: less_mult_imp_div_less)
  moreover have "a div (b * 2 ^ s) = q div 2 ^ s"
    by (simp add: q_def div_mult2_eq)
  ultimately have "round_half_even a (b * 2 ^ s) \<le> 2 ^ 53"
    using round_half_even_le [of a "b * 2 ^ s"] by simp
  then have "is_double (round_half_even a (b * 2 ^ s) * 2 ^ s)"
    by (rule is_double_mult)
  then show ?thesis
    by (simp add: nearest_double_def Let_def s_def q_def)
qed

lemma is_double_shift:
  assumes "is_double d"
  shows "is_double (d * 2 ^ k)"
proof (cases "d = 0")
  case True
  then show ?thesis
    by (simp add: is_double_iff)
next
  case False
  then have "floorlog 2 (d * 2 ^ k) = floorlog 2 d + k"
    by (intro floorlog_power) simp_all
  then have "floorlog 2 (d * 2 ^ k) - 53 \<le> (floorlog 2 d - 53) + k"
    by simp
  then have "(2::nat) ^ (floorlog 2 (d * 2 ^ k) - 53) dvd 2 ^ ((floorlog 2 d - 53) + k)"
    by (rule le_imp_power_dvd)
  moreover have "2 ^ ((floorlog 2 d - 53) + k) dvd d * 2 ^ k"
    using assms by (simp add: is_double_iff power_add mult_dvd_mono)
  ultimately show ?thesis
    by (auto simp: is_double_iff intro: dvd_trans)
qed

lemma is_double_div:
  assumes "is_double D"
  shows "is_double (D div 2 ^ k)"
proof -
  define y where "y = D div 2 ^ k"
  define j where "j = floorlog 2 y - 53"
  show ?thesis
  proof (cases "j = 0")
    case True
    then show ?thesis
      by (simp add: is_double_iff y_def [symmetric] j_def [symmetric])
  next
    case False
    then have "53 + j \<le> floorlog 2 y"
      by (simp add: j_def)
    then have "2 ^ (53 + j - 1) \<le> y"
      by (intro floorlog_geD) simp_all
    then have "2 ^ (53 + j - 1) * 2 ^ k \<le> y * 2 ^ k"
      by (rule mult_le_mono1)
    also have "\<dots> \<le> D"
      by (simp add: y_def)
    finally have "2 ^ (53 + j + k - 1) \<le> D"
      using False by (simp add: power_add [symmetric] algebra_simps)
    then have "53 + j + k \<le> floorlog 2 D"
      by (intro floorlog_geI) simp_all
    then have "j + k \<le> floorlog 2 D - 53"
      by simp
    then have "(2::nat) ^ (j + k) dvd 2 ^ (floorlog 2 D - 53)"
      by (rule le_imp_power_dvd)
    then have "2 ^ (j + k) dvd D"
      using assms by (auto simp: is_double_iff intro: dvd_trans)
    then obtain c where "D = c * (2 ^ j * 2 ^ k)"
      by (auto simp: dvd_def power_add mult.commute)
    then have "y = c * 2 ^ j"
      by (simp add: y_def mult.assoc [symmetric])
    then have "2 ^ j dvd y"
      by simp
    then show ?thesis
      by (simp only: is_double_iff j_def y_def)
  qed
qed

lemma floor_div_is_double: "0 < m \<Longrightarrow> is_double (floor_div n m)"
  unfolding floor_div_def by (intro is_double_div nearest_double_is_double)

lemma floor_div_ge:
  assumes "0 < m" and "is_double d" and "d * m \<le> n"
  shows "d \<le> floor_div n m"
proof -
  have "is_double (d * 2 ^ 64)"
    using assms(2) by (rule is_double_shift)
  moreover have "d * 2 ^ 64 * m \<le> n * 2 ^ 64"
    using assms(3) by (metis mult_le_mono1 mult.assoc mult.commute)
  ultimately have "d * 2 ^ 64 \<le> nearest_double (n * 2 ^ 64) m"
    using assms(1) by (intro nearest_double_ge_double)
  then show ?thesis
    by (simp add: floor_div_def less_eq_div_iff_mult_less_eq)
qed

lemma floor_div_le:
  assumes "0 < m" and "is_double d" and "n \<le> d * m"
  shows "floor_div n m \<le> d"
proof -
  have "is_double (d * 2 ^ 64)"
    using assms(2) by (rule is_double_shift)
  moreover have "n * 2 ^ 64 \<le> d * 2 ^ 64 * m"
    using assms(3) by (metis mult_le_mono1 mult.assoc mult.commute)
  ultimately have "nearest_double (n * 2 ^ 64) m \<le> d * 2 ^ 64"
    using assms(1) by (intro nearest_double_le_double)
  then have "nearest_double (n * 2 ^ 64) m div 2 ^ 64 \<le> d * 2 ^ 64 div 2 ^ 64"
    by (rule div_le_mono)
  then show ?thesis
    by (simp add: floor_div_def)
qed

lemma nearest_double_le_twice: "0 < b \<Longrightarrow> nearest_double a b \<le> 2 * (a div b) + 1"
proof -
  assume b: "0 < b"
  define q where "q = a div b"
  define s where "s = floorlog 2 q - 53"
  have pow: "2 ^ s \<le> q + 1"
  proof (cases "s = 0")
    case True
    then show ?thesis by simp
  next
    case False
    then have "0 < q"
      unfolding s_def by (cases "q = 0") (simp_all add: floorlog_def)
    then have "2 ^ (floorlog 2 q - 1) \<le> q"
      using floorlog_bounds [of q 2] by simp
    moreover have "(2::nat) ^ s \<le> 2 ^ (floorlog 2 q - 1)"
      unfolding s_def by (rule power_increasing) simp_all
    ultimately have "(2::nat) ^ s \<le> q"
      by (rule order_trans [rotated])
    then show ?thesis by simp
  qed
  have "a div (b * 2 ^ s) = q div 2 ^ s"
    by (simp add: q_def div_mult2_eq)
  then have "round_half_even a (b * 2 ^ s) \<le> q div 2 ^ s + 1"
    using round_half_even_le [of a "b * 2 ^ s"] by simp
  then have "round_half_even a (b * 2 ^ s) * 2 ^ s \<le> (q div 2 ^ s + 1) * 2 ^ s"
    by (rule mult_le_mono1)
  also have "\<dots> = q div 2 ^ s * 2 ^ s + 2 ^ s"
    by (simp add: algebra_simps)
  also have "\<dots> \<le> q + 2 ^ s"
    by simp
  also have "\<dots> \<le> 2 * q + 1"
    using pow by simp
  finally show ?thesis
    by (simp add: nearest_double_def Let_def q_def s_def)
qed

lemma floor_div_less: "0 < n \<Longrightarrow> floor_div n 83 < n"
proof -
  assume n: "0 < n"
  define q where "q = (n * 2 ^ 64) div 83"
  have "83 * q \<le> n * 2 ^ 64"
    unfolding q_def by simp
  then have "2 * q + 1 < n * 2 ^ 64"
    using n by simp
  moreover have "nearest_double (n * 2 ^ 64) 83 \<le> 2 * q + 1"
    unfolding q_def by (rule nearest_double_le_twice) simp
  ultimately have "nearest_double (n * 2 ^ 64) 83 < n * 2 ^ 64"
    by simp
  then show ?thesis
    by (simp add: floor_div_def less_mult_imp_div_less)
qed

lemma floor_div_83: "n \<le> 2 ^ 53 \<Longrightarrow> floor_div n 83 = n div 83"
  unfolding floor_div_def by (rule floor_div_exact)

lemma coprime_2_83: "coprime (2::nat) 83"
  by (simp add: coprime_iff_gcd_eq_1 gcd_nat.simps [of 2 83] gcd_nat.simps [of 83 2]
      gcd_nat.simps [of 2 1])

lemma floor_div_strict_mono:
  assumes "is_double n1" and "is_double n2" and "n1 < n2" and "n1 mod 83 = n2 mod 83"
  shows "floor_div n1 83 < floor_div n2 83"
proof -
  define L where "L = floorlog 2 n1"
  define u :: nat where "u = 2 ^ (L - 53)"
  define j where "j = n1 div 83"
  have "u dvd n1"
    using assms(1) by (simp add: is_double_iff u_def L_def)
  moreover have "u dvd n2"
    unfolding u_def L_def using assms(2,3) by (intro is_double_above) simp_all
  ultimately have "u dvd n2 - n1"
    by (rule dvd_diff_nat [rotated])
  moreover have "83 dvd n2 - n1"
    using assms(3,4) mod_eq_dvd_iff_nat [of n1 n2 83] by simp
  moreover have "coprime u (83::nat)"
    unfolding u_def using coprime_2_83 by (simp add: coprime_power_left_iff)
  ultimately have "u * 83 dvd n2 - n1"
    by (intro divides_mult)
  then have "u * 83 \<le> n2 - n1"
    using assms(3) by (intro dvd_imp_le) simp_all
  then have n2: "n1 + u * 83 \<le> n2"
    using assms(3) by simp
  have lo: "j * 83 \<le> n1" and hi: "n1 < Suc j * 83"
    unfolding j_def by (simp_all add: dividend_less_div_times)
  have n2': "(j + u) * 83 \<le> n2"
    using n2 lo by (simp add: algebra_simps)
  show ?thesis
  proof (cases "L \<le> 53")
    case True
    then have "n1 < 2 ^ 53"
      unfolding L_def by (simp add: floorlog_le_iff)
    then have exact: "floor_div n1 83 = j"
      unfolding j_def by (intro floor_div_83) simp
    have "j \<le> n1"
      unfolding j_def by simp
    with \<open>n1 < 2 ^ 53\<close> have "Suc j \<le> MAX_EXACT"
      by (simp add: MAX_EXACT_def)
    then have "is_double (Suc j)"
      by (rule is_double_exact)
    moreover have "Suc j * 83 \<le> n2"
      using n2' True by (simp add: u_def)
    ultimately have "Suc j \<le> floor_div n2 83"
      by (intro floor_div_ge) simp_all
    then show ?thesis
      by (simp add: exact)
  next
    case False
    then have "54 \<le> L" by simp
    then obtain e where L: "L = e + 54"
      by (metis add.commute le_Suc_ex)
    define y where "y = j + u"
    define v :: nat where "v = 2 ^ (floorlog 2 y - 53)"
    have u2: "u = 2 * 2 ^ e"
      by (simp add: u_def L)
    have "n1 < 2 ^ L"
      unfolding L_def by (rule floorlog_leD) simp_all
    then have "n1 < 2 ^ (e + 52) * 4"
      by (simp add: L power_add)
    then have "n1 div 4 < 2 ^ (e + 52)"
      by (rule less_mult_imp_div_less)
    moreover have "n1 div 83 \<le> n1 div 4"
      by (rule div_le_mono2) simp_all
    ultimately have "j < 2 ^ (e + 52)"
      unfolding j_def by simp
    moreover have "u \<le> 2 ^ (e + 52)"
      by (simp add: u2 power_add)
    ultimately have "y < 2 ^ (e + 53)"
      by (simp add: y_def power_add)
    then have "floorlog 2 y \<le> e + 53"
      by (simp add: floorlog_le_iff)
    then have "floorlog 2 y - 53 \<le> e"
      by simp
    then have "v \<le> 2 ^ e"
      unfolding v_def by (rule power_increasing) simp
    then have uv: "2 * v \<le> u"
      by (simp add: u2)
    have v: "0 < v"
      by (simp add: v_def)
    define d2 where "d2 = y div v * v"
    define d1 where "d1 = d2 - v"
    have d2y: "d2 \<le> y"
      by (simp add: d2_def)
    have "y < d2 + v"
      unfolding d2_def using v by (metis dividend_less_div_times add.commute mult.commute)
    then have d2: "j + v < d2"
      using uv by (simp add: y_def)
    then have d1: "Suc j \<le> d1" and d12: "d1 < d2"
      using v by (simp_all add: d1_def)
    have "v dvd d2"
      by (simp add: d2_def)
    then have "v dvd d1"
      unfolding d1_def by (rule dvd_diff_nat) simp
    have "is_double d2"
      using \<open>v dvd d2\<close> d2y unfolding v_def by (rule is_double_below)
    moreover have "d2 * 83 \<le> n2"
      using d2y n2' by (metis mult_le_mono1 order_trans y_def)
    ultimately have ge: "d2 \<le> floor_div n2 83"
      by (intro floor_div_ge) simp_all
    have "d1 \<le> y"
      using d12 d2y by simp
    with \<open>v dvd d1\<close> have "is_double d1"
      unfolding v_def by (rule is_double_below)
    moreover have "n1 \<le> d1 * 83"
      using hi d1 by (metis less_imp_le mult_le_mono1 order_trans)
    ultimately have "floor_div n1 83 \<le> d1"
      by (intro floor_div_le) simp_all
    then show ?thesis
      using ge d12 by simp
  qed
qed

lemma do_while_step:
  "do_while (Num n) str =
     (if 0 < floor_div n 83
      then do_while (Num (floor_div n 83)) (urlChars ! (n mod 83) # str)
      else urlChars ! (n mod 83) # str)"
proof -
  have less: "n mod 83 < length urlChars"
    by (simp add: urlChars_def)
  have "n mod 83 + 0 \<le> MAX_EXACT"
    by (simp add: MAX_EXACT_def)
  then have "js_add (Num (n mod 83)) 0 = Num (n mod 83 + 0)"
    by (rule js_add_exact)
  then have "js_add (js_mod (Num n) asciiRange) asciiMin = Num (n mod 83)"
    by (simp add: asciiMin_def asciiRange_eq del: js_add.simps)
  then show ?thesis
    using less
    by (subst do_while.simps)
      (simp add: Let_def asciiRange_eq del: js_add.simps js_mod.simps)
qed

lemma floor_div_0: "floor_div 0 83 = 0"
  by (simp add: floor_div_def nearest_double_def round_half_even_def floorlog_def)

lemma floor_div_pos: "0 < floor_div n 83 \<Longrightarrow> 0 < n"
  by (cases "n = 0") (simp_all add: floor_div_0)

lemma do_while_acc: "do_while (Num n) str = do_while (Num n) [] @ str"
proof (induction n arbitrary: str rule: less_induct)
  case (less n)
  show ?case
  proof (cases "0 < floor_div n 83")
    case True
    then have "0 < n"
      by (rule floor_div_pos)
    then have "floor_div n 83 < n"
      by (rule floor_div_less)
    then have IH: "do_while (Num (floor_div n 83)) s = do_while (Num (floor_div n 83)) [] @ s"
      for s
      by (rule less.IH)
    have "do_while (Num (floor_div n 83)) (urlChars ! (n mod 83) # str) =
        do_while (Num (floor_div n 83)) [] @ urlChars ! (n mod 83) # str"
      by (rule IH)
    moreover have "do_while (Num (floor_div n 83)) [urlChars ! (n mod 83)] =
        do_while (Num (floor_div n 83)) [] @ [urlChars ! (n mod 83)]"
      by (rule IH)
    ultimately have "do_while (Num (floor_div n 83)) (urlChars ! (n mod 83) # str) =
        do_while (Num (floor_div n 83)) [urlChars ! (n mod 83)] @ str"
      by simp
    moreover have "do_while (Num n) s =
        do_while (Num (floor_div n 83)) (urlChars ! (n mod 83) # s)" for s
      using True by (subst do_while_step) simp
    ultimately show ?thesis
      by simp
  next
    case False
    then have "do_while (Num n) s = urlChars ! (n mod 83) # s" for s
      by (subst do_while_step) simp
    then show ?thesis
      by simp
  qed
qed

lemma generate_str_step:
  "generate_str (Num n) =
     (if 0 < floor_div n 83
      then generate_str (Num (floor_div n 83)) @ [urlChars ! (n mod 83)]
      else [urlChars ! (n mod 83)])"
proof -
  have "do_while (Num (floor_div n 83)) [urlChars ! (n mod 83)] =
      do_while (Num (floor_div n 83)) [] @ [urlChars ! (n mod 83)]"
    by (rule do_while_acc)
  then show ?thesis
    unfolding generate_str_def by (subst do_while_step) simp
qed

lemma generate_str_not_Nil: "generate_str (Num n) \<noteq> []"
  by (subst generate_str_step) simp

lemma urlChars_nth_inj:
  assumes "urlChars ! (n1 mod 83) = urlChars ! (n2 mod 83)"
  shows "n1 mod 83 = n2 mod 83"
proof -
  have "n1 mod 83 < length urlChars" "n2 mod 83 < length urlChars"
    by (simp_all add: urlChars_def)
  then show ?thesis
    using assms distinct_urlChars by (simp add: nth_eq_iff_index_eq)
qed

lemma floor_div_0_small:
  assumes "floor_div n 83 = 0"
  shows "n < 83"
proof (rule ccontr)
  assume "\<not> n < 83"
  then have "1 * 83 \<le> n" by simp
  moreover have "is_double 1"
    by (rule is_double_exact) (simp add: MAX_EXACT_def)
  ultimately have "1 \<le> floor_div n 83"
    by (intro floor_div_ge) simp_all
  with assms show False by simp
qed

lemma generate_str_inj_double:
  assumes "is_double n1" and "is_double n2"
    and "generate_str (Num n1) = generate_str (Num n2)"
  shows "n1 = n2"
  using assms
proof (induction n1 arbitrary: n2 rule: less_induct)
  case (less n1)
  let ?q1 = "floor_div n1 83" and ?q2 = "floor_div n2 83"
  note eq = \<open>generate_str (Num n1) = generate_str (Num n2)\<close>
  have "last (generate_str (Num n1)) = urlChars ! (n1 mod 83)"
    by (subst generate_str_step) simp
  moreover have "last (generate_str (Num n2)) = urlChars ! (n2 mod 83)"
    by (subst generate_str_step) simp
  ultimately have "urlChars ! (n1 mod 83) = urlChars ! (n2 mod 83)"
    using eq by simp
  then have m: "n1 mod 83 = n2 mod 83"
    by (rule urlChars_nth_inj)
  have b1: "butlast (generate_str (Num n1)) = (if 0 < ?q1 then generate_str (Num ?q1) else [])"
    by (subst generate_str_step) simp
  have b2: "butlast (generate_str (Num n2)) = (if 0 < ?q2 then generate_str (Num ?q2) else [])"
    by (subst generate_str_step) simp
  from eq b1 b2
  have b: "(if 0 < ?q1 then generate_str (Num ?q1) else []) =
      (if 0 < ?q2 then generate_str (Num ?q2) else [])"
    by simp
  show ?case
  proof (cases "0 < ?q1")
    case False
    with b have "?q2 = 0"
      using generate_str_not_Nil [of ?q2] by (auto split: if_splits)
    then have "n2 < 83"
      by (rule floor_div_0_small)
    moreover from False have "n1 < 83"
      by (intro floor_div_0_small) simp
    ultimately show ?thesis
      using m by simp
  next
    case True
    with b have q2: "0 < ?q2"
      using generate_str_not_Nil [of ?q1] by (auto split: if_splits)
    with True b have "generate_str (Num ?q1) = generate_str (Num ?q2)"
      by simp
    moreover have "?q1 < n1"
      using True floor_div_pos [of n1] by (intro floor_div_less) simp
    moreover have "is_double ?q1" "is_double ?q2"
      by (simp_all add: floor_div_is_double)
    ultimately have q: "?q1 = ?q2"
      by (intro less.IH)
    show ?thesis
    proof (rule ccontr)
      assume "n1 \<noteq> n2"
      then consider "n1 < n2" | "n2 < n1"
        by (metis nat_neq_iff)
      then show False
      proof cases
        case 1
        then have "?q1 < ?q2"
          using less.prems(1,2) m by (intro floor_div_strict_mono)
        with q show False by simp
      next
        case 2
        then have "?q2 < ?q1"
          using less.prems(1,2) m by (intro floor_div_strict_mono) simp_all
        with q show False by simp
      qed
    qed
  qed
qed

lemma js_incr_is_double: "\<exists>n'. js_incr (Num n) = Num n' \<and> is_double n'"
  by (simp add: js_incr_def nearest_double_is_double)

text \<open>
  C5. The generator is injective on the counter values: two different Numbers (the
  non-negative integers that a JavaScript Number can hold, which are the only values the
  program reads from \<open>./count\<close>, writes back and issues) never get the same code, also
  beyond \<open>2 ^ 53\<close>, where the loop no longer computes the digits of the value.
\<close>

theorem generate_str_injective:
  "is_double n1 \<Longrightarrow> is_double n2 \<Longrightarrow> n1 \<noteq> n2 \<Longrightarrow>
   generate_str (Num n1) \<noteq> generate_str (Num n2)"
  using generate_str_inj_double by blast

theorem generate_str_injective_witness:
  "is_double 83 \<and> is_double 11681211533492306 \<and> (83::nat) \<noteq> 11681211533492306
   \<and> generate_str (Num 83) \<noteq> generate_str (Num 11681211533492306)"
proof -
  have "is_double 83"
    by (rule is_double_exact) (simp add: MAX_EXACT_def)
  then show ?thesis
    using generate_str_injective [of 83 11681211533492306] is_double_divergence by simp
qed

section \<open>Lengths of the codes\<close>

text \<open>
  C10, as amended. The alphabet has 83 characters. With \<open>A = 83\<close>, the codes of the counter
  values \<open>0..A-1\<close> have length 1, those of \<open>A..A\<^sup>2-1\<close> have length 2, and those of
  \<open>A\<^sup>2..A\<^sup>2+A-1\<close> have length 3.
\<close>

theorem generate_str_lengths:
  assumes "n1 < asciiRange"
    and "asciiRange \<le> n2" and "n2 < asciiRange * asciiRange"
    and "asciiRange * asciiRange \<le> n3" and "n3 < asciiRange * asciiRange + asciiRange"
  shows "length urlChars = 83 \<and> asciiRange = 83
    \<and> length (generate_str (Num n1)) = 1
    \<and> length (generate_str (Num n2)) = 2
    \<and> length (generate_str (Num n3)) = 3"
proof -
  have small: "n1 \<le> MAX_EXACT" "n2 \<le> MAX_EXACT" "n3 \<le> MAX_EXACT"
    using assms(1,3,5) by (simp_all add: asciiRange_eq MAX_EXACT_def)
  have a: "length (generate_str (Num n1)) = 1"
    using assms(1) by (simp add: length_generate_str small length_spec_digits_small)
  have "n2 div asciiRange < asciiRange"
    using assms(3) by (simp add: asciiRange_eq less_mult_imp_div_less)
  then have b: "length (generate_str (Num n2)) = 2"
    using assms(2)
    by (simp add: length_generate_str small length_spec_digits_step length_spec_digits_small)
  have "asciiRange \<le> n3 div asciiRange"
    using assms(4) by (simp add: asciiRange_eq less_eq_div_iff_mult_less_eq)
  moreover have "n3 div asciiRange < asciiRange * asciiRange"
    using assms(5) by (simp add: asciiRange_eq less_mult_imp_div_less)
  moreover have "n3 div asciiRange div asciiRange < asciiRange"
    using assms(5) by (simp add: asciiRange_eq less_mult_imp_div_less)
  moreover have "asciiRange \<le> n3"
    using assms(4) by (simp add: asciiRange_eq)
  ultimately have c: "length (generate_str (Num n3)) = 3"
    by (simp add: length_generate_str small length_spec_digits_step length_spec_digits_small)
  show ?thesis
    using a b c by (simp add: asciiRange_eq [symmetric] asciiRange_def)
qed

theorem generate_str_lengths_witness:
  "(82::nat) < asciiRange \<and> asciiRange \<le> (6888::nat) \<and> (6888::nat) < asciiRange * asciiRange
   \<and> asciiRange * asciiRange \<le> (6971::nat) \<and> (6971::nat) < asciiRange * asciiRange + asciiRange
   \<and> length (generate_str (Num 82)) = 1
   \<and> length (generate_str (Num 6888)) = 2
   \<and> length (generate_str (Num 6971)) = 3"
  using generate_str_lengths [of 82 6888 6971] by (simp add: asciiRange_eq)

text \<open>
  C10 as stated fails: the alphabet has 83 characters, not 84, and the counter value
  \<open>6889 = 83\<^sup>2\<close>, which lies in \<open>A..A\<^sup>2+A-1\<close> for \<open>A = 83\<close> and for \<open>A = 84\<close>, has a code of
  length 3.
\<close>

theorem generate_str_lengths_counterexample:
  "length urlChars \<noteq> 84
   \<and> asciiRange \<le> 6889 \<and> 6889 \<le> asciiRange * asciiRange + asciiRange - 1
   \<and> (84::nat) \<le> 6889 \<and> (6889::nat) \<le> 84 * 84 + 84 - 1
   \<and> generate_str (Num 6889) = ''211''
   \<and> length (generate_str (Num 6889)) \<noteq> 2"
  by (simp add: asciiRange_eq generate_str_def do_while_Num MAX_EXACT_def)
    (simp add: urlChars_def)

section \<open>Properties of generateShortURL\<close>

lemma generate_str_NaN: "generate_str NaN = ''undefined''"
  by (simp add: generate_str_def do_while_NaN)

lemma generate_str_0: "generate_str (Num 0) = ''1''"
  by (simp add: generate_str_def do_while_Num MAX_EXACT_def) (simp add: urlChars_def)

lemma js_incr_0: "js_incr (Num 0) = Num 1"
  by (simp add: js_incr_exact MAX_EXACT_def)

lemma generateShortURL_unreadable:
  "count_file w = None \<Longrightarrow> generateShortURL wr w = (Inl ReadError, w)"
  by (simp add: generateShortURL_def fs_readFile_def)

lemma generateShortURL_written:
  "count_file w = Some c \<Longrightarrow>
   generateShortURL Written w = (Inr (generate_str c), w\<lparr>count_file := Some (js_incr c)\<rparr>)"
  by (simp add: generateShortURL_def fs_readFile_def readFile_cb_def fs_writeFile_def
      generate_str_def)

lemma generateShortURL_write_failed:
  "count_file w = Some c \<Longrightarrow>
   generateShortURL (Write_failed left) w = (Inl WriteError, w\<lparr>count_file := left\<rparr>)"
  by (simp add: generateShortURL_def fs_readFile_def readFile_cb_def fs_writeFile_def)

text \<open>
  C6. \<open>generateShortURL\<close> hands a code to its caller only after the write of the incremented
  count has succeeded: a failed write makes it call back with an error and no code, and
  whenever it calls back with a code, the write succeeded and the file holds the count it
  read, incremented.
\<close>

theorem generateShortURL_code_only_after_write:
  "(\<exists>err. fst (generateShortURL (Write_failed left) w) = Inl err)
   \<and> (fst (generateShortURL wr w') = Inr str \<longrightarrow>
        wr = Written
        \<and> (\<exists>count. count_file w' = Some count \<and> str = generate_str count
             \<and> count_file (snd (generateShortURL wr w')) = Some (js_incr count)))"
proof (intro conjI impI)
  show "\<exists>err. fst (generateShortURL (Write_failed left) w) = Inl err"
    by (cases "count_file w")
      (simp_all add: generateShortURL_unreadable generateShortURL_write_failed)
next
  assume r: "fst (generateShortURL wr w') = Inr str"
  then obtain count where c: "count_file w' = Some count"
    by (cases "count_file w'") (simp_all add: generateShortURL_unreadable)
  with r show "wr = Written"
    by (cases wr) (simp_all add: generateShortURL_write_failed)
  with r c show "\<exists>count. count_file w' = Some count \<and> str = generate_str count
      \<and> count_file (snd (generateShortURL wr w')) = Some (js_incr count)"
    by (auto simp: generateShortURL_written)
qed

theorem generateShortURL_code_only_after_write_witness:
  "fst (generateShortURL Written \<lparr>count_file = Some (Num 0), shorturls = []\<rparr>) = Inr ''1''
   \<and> (\<exists>err. fst (generateShortURL (Write_failed None)
         \<lparr>count_file = Some (Num 0), shorturls = []\<rparr>) = Inl err)
   \<and> count_file (snd (generateShortURL Written \<lparr>count_file = Some (Num 0), shorturls = []\<rparr>))
       = Some (js_incr (Num 0))"
  using generateShortURL_code_only_after_write
    [of None "\<lparr>count_file = Some (Num 0), shorturls = []\<rparr>" Written
      "\<lparr>count_file = Some (Num 0), shorturls = []\<rparr>" "''1''"]
  by (simp add: generateShortURL_written generate_str_0)

section \<open>Properties of addURL and of the route\<close>

lemma addURL_ok:
  assumes "\<not> add_connect_error e" and "write_outcome e = Written" and "\<not> insert_error e"
    and "count_file w = Some c"
  shows "addURL e url w =
    (Inr \<lparr>original_url = url, short_url = generate_str c\<rparr>,
     w\<lparr>count_file := Some (js_incr c),
        shorturls := shorturls w @ [\<lparr>original_url = url, short_url = generate_str c\<rparr>]\<rparr>)"
  using assms by (simp add: addURL_def generateShortURL_written insert_doc_def Let_def)

lemma all_ok_fields:
  "fetch all_ok = Probe_ok" "\<not> find_connect_error all_ok" "\<not> findOne_error all_ok"
  "\<not> add_connect_error all_ok" "write_outcome all_ok = Written" "\<not> insert_error all_ok"
  by (simp_all add: all_ok_def)

lemma addURL_unreadable:
  "count_file w = None \<Longrightarrow> addURL e url w =
     (Inl (if add_connect_error e then ConnectError else ReadError), w)"
  by (simp add: addURL_def generateShortURL_unreadable)

lemma new_route_scheme:
  assumes "take 8 (drop 5 path) = ''https://'' \<or> take 7 (drop 5 path) = ''http://''"
  shows "new_route e host path w =
    (case fetch e of
       Probe_throws \<Rightarrow> (express_reply, w)
     | Probe_error \<Rightarrow> cb e host (drop 5 path) (Some RequestError) w
     | Probe_ok \<Rightarrow> cb e host (drop 5 path) None w)"
  using assms by (auto simp: new_route_def checkURL_def checked_def Let_def split: probe.splits)

lemma cb_added:
  assumes "\<not> find_connect_error e" and "\<not> findOne_error e"
    and "findOne url (shorturls w) = None"
  shows "cb e host url None w = (add_reply host (fst (addURL e url w)), snd (addURL e url w))"
  using assms by (simp add: cb_def findURL_def split: prod.splits)

lemma cb_found:
  assumes "\<not> find_connect_error e" and "\<not> findOne_error e"
    and "findOne url (shorturls w) = Some d"
  shows "cb e host url None w = (Reply 200 (Json (with_host host d)), w)"
  using assms by (simp add: cb_def findURL_def)

text \<open>
  C7, as amended. When \<open>./count\<close> holds 0, the first URL shortened gets the code of 0, the
  first character of the alphabet, and the file then holds 1. When there is no \<open>./count\<close>,
  \<open>generateShortURL\<close> calls back with the error of the read: the program never creates the
  file, and no code is issued.
\<close>

theorem first_code_from_zero:
  assumes "count_file w = Some (Num 0)"
    and "findOne (drop 5 path) (shorturls w) = None"
    and "take 8 (drop 5 path) = ''https://'' \<or> take 7 (drop 5 path) = ''http://''"
    and "count_file w' = None"
  shows "new_route all_ok host path w =
      (Reply 200 (Json \<lparr>original_url = drop 5 path, short_url = host @ ''/'' @ [urlChars ! 0]\<rparr>),
       w\<lparr>count_file := Some (Num 1),
          shorturls := shorturls w @ [\<lparr>original_url = drop 5 path, short_url = [urlChars ! 0]\<rparr>]\<rparr>)
    \<and> generateShortURL wr w' = (Inl ReadError, w')"
proof -
  have "generate_str (Num 0) = [urlChars ! 0]"
    by (simp add: generate_str_def do_while_Num MAX_EXACT_def)
  then have "addURL all_ok (drop 5 path) w =
      (Inr \<lparr>original_url = drop 5 path, short_url = [urlChars ! 0]\<rparr>,
       w\<lparr>count_file := Some (Num 1),
          shorturls := shorturls w @ [\<lparr>original_url = drop 5 path, short_url = [urlChars ! 0]\<rparr>]\<rparr>)"
    using addURL_ok [of all_ok w "Num 0" "drop 5 path"] assms(1)
    by (simp add: all_ok_fields js_incr_0)
  then have "new_route all_ok host path w =
      (Reply 200 (Json \<lparr>original_url = drop 5 path, short_url = host @ ''/'' @ [urlChars ! 0]\<rparr>),
       w\<lparr>count_file := Some (Num 1),
          shorturls := shorturls w @ [\<lparr>original_url = drop 5 path, short_url = [urlChars ! 0]\<rparr>]\<rparr>)"
    using assms(2,3)
    by (simp add: new_route_scheme cb_added add_reply_def with_host_def all_ok_fields)
  then show ?thesis
    using assms(4) by (simp add: generateShortURL_unreadable)
qed

theorem first_code_from_zero_witness:
  "count_file \<lparr>count_file = Some (Num 0), shorturls = []\<rparr> = Some (Num 0)
   \<and> findOne (drop 5 ''/new/http://example.com'') [] = None
   \<and> take 7 (drop 5 ''/new/http://example.com'') = ''http://''
   \<and> count_file \<lparr>count_file = None, shorturls = []\<rparr> = None
   \<and> new_route all_ok ''localhost'' ''/new/http://example.com''
        \<lparr>count_file = Some (Num 0), shorturls = []\<rparr> =
      (Reply 200 (Json \<lparr>original_url = ''http://example.com'', short_url = ''localhost/1''\<rparr>),
       \<lparr>count_file = Some (Num 1),
          shorturls = [\<lparr>original_url = ''http://example.com'', short_url = ''1''\<rparr>]\<rparr>)
   \<and> generateShortURL Written \<lparr>count_file = None, shorturls = []\<rparr> =
      (Inl ReadError, \<lparr>count_file = None, shorturls = []\<rparr>)"
  using first_code_from_zero [of "\<lparr>count_file = Some (Num 0), shorturls = []\<rparr>"
      "''/new/http://example.com''" "\<lparr>count_file = None, shorturls = []\<rparr>" "''localhost''" Written]
  by (simp add: findOne_def urlChars_def)

text \<open>
  C7 as stated fails: on a first run without \<open>./count\<close> the counter does not start at 0.
  The read fails, \<open>generateShortURL\<close> calls back with the error, the request is answered
  with status 500, and neither a file nor a document is created.
\<close>

theorem first_run_counterexample:
  "generateShortURL Written \<lparr>count_file = None, shorturls = []\<rparr> =
     (Inl ReadError, \<lparr>count_file = None, shorturls = []\<rparr>)
   \<and> new_route all_ok ''localhost'' ''/new/http://example.com''
        \<lparr>count_file = None, shorturls = []\<rparr> =
     (Reply 500 (Text ''An error occurred''), \<lparr>count_file = None, shorturls = []\<rparr>)"
  by (simp add: generateShortURL_unreadable new_route_scheme cb_added findOne_def
      addURL_unreadable add_reply_def all_ok_fields)

text \<open>
  C8, as amended. When \<open>./count\<close> cannot be read, \<open>generateShortURL\<close> calls back with the
  error, without a code and without writing the file. When the file holds a text that is not
  a number, nothing fails: \<open>Number\<close> gives NaN, the code handed to the caller is the text
  \<open>undefined\<close>, and the write stores NaN again (never 0).
\<close>

theorem corrupted_counter:
  assumes "count_file w = None" and "count_file w' = Some NaN"
  shows "generateShortURL wr w = (Inl ReadError, w)
    \<and> generateShortURL Written w' = (Inr ''undefined'', w')
    \<and> count_file (snd (generateShortURL Written w')) = Some NaN"
  using assms
  by (simp add: generateShortURL_unreadable generateShortURL_written generate_str_NaN
      js_incr_NaN)

theorem corrupted_counter_witness:
  "count_file \<lparr>count_file = None, shorturls = []\<rparr> = None
   \<and> count_file \<lparr>count_file = Some NaN, shorturls = []\<rparr> = Some NaN
   \<and> generateShortURL Written \<lparr>count_file = None, shorturls = []\<rparr> =
       (Inl ReadError, \<lparr>count_file = None, shorturls = []\<rparr>)
   \<and> generateShortURL Written \<lparr>count_file = Some NaN, shorturls = []\<rparr> =
       (Inr ''undefined'', \<lparr>count_file = Some NaN, shorturls = []\<rparr>)"
  using corrupted_counter [of "\<lparr>count_file = None, shorturls = []\<rparr>"
      "\<lparr>count_file = Some NaN, shorturls = []\<rparr>" Written]
  by simp

text \<open>
  C8 as stated fails: with a counter file that is not numeric, two requests in a row are
  both answered with status 200 and the same code \<open>undefined\<close>; the allocation does not
  fail.
\<close>

theorem corrupted_counter_counterexample:
  "generateShortURL Written \<lparr>count_file = Some NaN, shorturls = []\<rparr> =
     (Inr ''undefined'', \<lparr>count_file = Some NaN, shorturls = []\<rparr>)
   \<and> new_route all_ok ''localhost'' ''/new/http://example.com''
        \<lparr>count_file = Some NaN, shorturls = []\<rparr> =
     (Reply 200 (Json \<lparr>original_url = ''http://example.com'',
        short_url = ''localhost/undefined''\<rparr>),
      \<lparr>count_file = Some NaN,
         shorturls = [\<lparr>original_url = ''http://example.com'', short_url = ''undefined''\<rparr>]\<rparr>)
   \<and> fst (new_route all_ok ''localhost'' ''/new/https://example.org''
        \<lparr>count_file = Some NaN,
           shorturls = [\<lparr>original_url = ''http://example.com'', short_url = ''undefined''\<rparr>]\<rparr>) =
     Reply 200 (Json \<lparr>original_url = ''https://example.org'',
        short_url = ''localhost/undefined''\<rparr>)"
  by (simp add: generateShortURL_written generate_str_NaN new_route_scheme cb_added findOne_def
      add_reply_def with_host_def addURL_ok [where c = NaN] all_ok_fields js_incr_NaN)

lemma find_append_None: "find P xs = None \<Longrightarrow> find P (xs @ ys) = find P ys"
  by (induction xs) (auto split: if_splits)




text \<open>
  C3, as amended. \<open>addURL\<close> does not look for an existing document. Whenever the
  connection, the allocation of the code and the insert succeed, it appends a new document
  for the URL with the next code and calls back with it, also when the collection already
  holds documents for that URL: their number grows by one. Nothing in \<open>addURL\<close> reports a
  conflict; keeping one document per URL is left to the caller's \<open>findURL\<close>.
\<close>

theorem addURL_always_inserts:
  assumes "\<not> add_connect_error e" and "write_outcome e = Written" and "\<not> insert_error e"
    and "count_file w = Some c"
  shows "addURL e url w =
      (Inr \<lparr>original_url = url, short_url = generate_str c\<rparr>,
       w\<lparr>count_file := Some (js_incr c),
          shorturls := shorturls w @ [\<lparr>original_url = url, short_url = generate_str c\<rparr>]\<rparr>)
    \<and> length (filter (\<lambda>d. original_url d = url) (shorturls (snd (addURL e url w)))) =
        Suc (length (filter (\<lambda>d. original_url d = url) (shorturls w)))"
  using assms by (simp add: addURL_ok)

theorem addURL_always_inserts_witness:
  "\<not> add_connect_error all_ok \<and> write_outcome all_ok = Written \<and> \<not> insert_error all_ok
   \<and> count_file \<lparr>count_file = Some (Num 1),
        shorturls = [\<lparr>original_url = ''http://example.com'', short_url = ''1''\<rparr>]\<rparr> = Some (Num 1)
   \<and> length (filter (\<lambda>d. original_url d = ''http://example.com'')
        (shorturls (snd (addURL all_ok ''http://example.com''
          \<lparr>count_file = Some (Num 1),
             shorturls = [\<lparr>original_url = ''http://example.com'', short_url = ''1''\<rparr>]\<rparr>)))) = 2"
  using addURL_always_inserts [of all_ok
      "\<lparr>count_file = Some (Num 1),
         shorturls = [\<lparr>original_url = ''http://example.com'', short_url = ''1''\<rparr>]\<rparr>"
      "Num 1" "''http://example.com''"]
  by (simp add: all_ok_fields)

text \<open>
  C3 as stated fails: with a document for the URL already in the collection, \<open>addURL\<close>
  does not fail with a conflict. It calls back with a second document for the same URL,
  under the next code, and the collection holds both.
\<close>

theorem addURL_conflict_counterexample:
  "findOne ''http://example.com''
      [\<lparr>original_url = ''http://example.com'', short_url = ''1''\<rparr>] =
     Some \<lparr>original_url = ''http://example.com'', short_url = ''1''\<rparr>
   \<and> addURL all_ok ''http://example.com''
        \<lparr>count_file = Some (Num 1),
           shorturls = [\<lparr>original_url = ''http://example.com'', short_url = ''1''\<rparr>]\<rparr> =
      (Inr \<lparr>original_url = ''http://example.com'', short_url = ''2''\<rparr>,
       \<lparr>count_file = Some (Num 2),
          shorturls = [\<lparr>original_url = ''http://example.com'', short_url = ''1''\<rparr>,
                       \<lparr>original_url = ''http://example.com'', short_url = ''2''\<rparr>]\<rparr>)"
proof -
  have "generate_str (Num 1) = ''2''"
    by (simp add: generate_str_def do_while_Num asciiRange_eq MAX_EXACT_def)
      (simp add: urlChars_def)
  then show ?thesis
    by (simp add: findOne_def addURL_ok [where c = "Num 1"] all_ok_fields js_incr_exact
        MAX_EXACT_def)
qed

section \<open>Interleavings of generateShortURL\<close>

lemma gen_step_twice:
  "gen_step wr (fst (gen_step wr Gen_start w)) (snd (gen_step wr Gen_start w)) =
     (Gen_done (fst (generateShortURL wr w)), snd (generateShortURL wr w))"
  by (cases "fs_readFile w") (simp_all add: generateShortURL_def split: prod.splits)

lemma gen_fire_at:
  "gen_fire (length pre) (w, pre @ (wr, pc) # post) =
     (snd (gen_step wr pc w), pre @ (wr, fst (gen_step wr pc w)) # post)"
  by (simp add: gen_fire_def split: prod.splits)

lemma gen_fire_twice:
  "gen_fire (length pre) (gen_fire (length pre) (w, pre @ (wr, Gen_start) # post)) =
     (snd (generateShortURL wr w), pre @ (wr, Gen_done (fst (generateShortURL wr w))) # post)"
  by (simp only: gen_fire_at gen_step_twice fst_conv snd_conv)

lemma sequential_schedule_Suc:
  "sequential_schedule k (Suc n) = [k, k] @ sequential_schedule (Suc k) n"
  by (simp add: sequential_schedule_def upt_conv_Cons)

lemma gen_run_sequential:
  "gen_run (sequential_schedule (length pre) (length wrs))
     (w, pre @ map (\<lambda>wr. (wr, Gen_start)) wrs) =
   (snd (sequential_calls wrs w),
    pre @ map (\<lambda>(wr, r). (wr, Gen_done r)) (zip wrs (fst (sequential_calls wrs w))))"
proof (induction wrs arbitrary: pre w)
  case Nil
  show ?case
    by (simp add: sequential_schedule_def gen_run_def)
next
  case (Cons wr wrs)
  let ?r = "fst (generateShortURL wr w)" and ?w = "snd (generateShortURL wr w)"
  have "gen_run (sequential_schedule (length pre) (length (wr # wrs)))
      (w, pre @ map (\<lambda>wr. (wr, Gen_start)) (wr # wrs)) =
      gen_run (sequential_schedule (length (pre @ [(wr, Gen_done ?r)])) (length wrs))
        (?w, (pre @ [(wr, Gen_done ?r)]) @ map (\<lambda>wr. (wr, Gen_start)) wrs)"
    using gen_fire_twice [of pre w wr "map (\<lambda>wr. (wr, Gen_start)) wrs"]
    by (simp add: sequential_schedule_Suc gen_run_def)
  also have "\<dots> = (snd (sequential_calls wrs ?w),
      (pre @ [(wr, Gen_done ?r)])
        @ map (\<lambda>(wr, r). (wr, Gen_done r)) (zip wrs (fst (sequential_calls wrs ?w))))"
    by (rule Cons.IH)
  finally show ?case
    by (simp add: split_def Let_def)
qed

lemma sequential_calls_written:
  assumes "count_file w = Some (Num c)" and "c + n \<le> MAX_EXACT"
  shows "sequential_calls (replicate n Written) w =
    (map (\<lambda>i. Inr (generate_str (Num (c + i)))) [0..<n], w\<lparr>count_file := Some (Num (c + n))\<rparr>)"
  using assms
proof (induction n arbitrary: c w)
  case 0
  then show ?case by simp
next
  case (Suc n)
  let ?w = "w\<lparr>count_file := Some (Num (Suc c))\<rparr>"
  have first: "generateShortURL Written w = (Inr (generate_str (Num c)), ?w)"
    using Suc.prems by (simp add: generateShortURL_written js_incr_exact)
  have "sequential_calls (replicate n Written) ?w =
      (map (\<lambda>i. Inr (generate_str (Num (Suc c + i)))) [0..<n],
       ?w\<lparr>count_file := Some (Num (Suc c + n))\<rparr>)"
    using Suc.prems by (intro Suc.IH) simp_all
  moreover have "[0..<Suc n] = 0 # map Suc [0..<n]"
    by (simp add: upt_conv_Cons map_Suc_upt del: upt_Suc)
  ultimately show ?case
    using first by (simp add: comp_def del: upt_Suc)
qed

lemma distinct_codes:
  assumes "c + n \<le> MAX_EXACT"
  shows "distinct (map (\<lambda>i. generate_str (Num (c + i))) [0..<n])"
proof -
  have "i = j" if "i < n" "j < n" "generate_str (Num (c + i)) = generate_str (Num (c + j))"
    for i j
  proof -
    have "c + i \<le> MAX_EXACT" "c + j \<le> MAX_EXACT"
      using that(1,2) assms by simp_all
    with that(3) have "c + i = c + j"
      by (rule generate_str_inj)
    then show ?thesis by simp
  qed
  then show ?thesis
    by (auto simp: distinct_map inj_on_def)
qed


section \<open>Interleavings of requests\<close>

lemma fire_at:
  "fire (length pre) (w, pre @ r # post) =
     (snd (step (req_env r) (req_host r) (req_pc r) w),
      pre @ r\<lparr>req_pc := fst (step (req_env r) (req_host r) (req_pc r) w)\<rparr> # post)"
  by (simp add: fire_def Let_def split: prod.splits)

lemma run_replicate:
  "run (replicate n (length pre)) (w, pre @ r # post) =
     (snd (steps n (req_env r) (req_host r) (req_pc r) w),
      pre @ r\<lparr>req_pc := fst (steps n (req_env r) (req_host r) (req_pc r) w)\<rparr> # post)"
proof (induction n arbitrary: r w)
  case 0
  show ?case by (simp add: run_def)
next
  case (Suc n)
  let ?s = "step (req_env r) (req_host r) (req_pc r) w"
  have "run (replicate (Suc n) (length pre)) (w, pre @ r # post) =
      run (replicate n (length pre)) (snd ?s, pre @ r\<lparr>req_pc := fst ?s\<rparr> # post)"
    by (simp add: run_def fire_at)
  also have "\<dots> = (snd (steps n (req_env r) (req_host r) (fst ?s) (snd ?s)),
      pre @ r\<lparr>req_pc := fst (steps n (req_env r) (req_host r) (fst ?s) (snd ?s))\<rparr> # post)"
    using Suc.IH [of "snd ?s" "r\<lparr>req_pc := fst ?s\<rparr>"] by simp
  finally show ?case
    by (simp add: split_def)
qed

lemma steps_Answered: "steps n e host (Answered r) w = (Answered r, w)"
  by (induction n) simp_all

lemma steps_add:
  "steps (m + n) e host p w =
     steps n e host (fst (steps m e host p w)) (snd (steps m e host p w))"
  by (induction m arbitrary: p w) (simp_all add: split_def)

lemma steps_allocating:
  assumes "\<not> add_connect_error e"
  shows "steps 3 e host (Allocating url Gen_start) w =
     (Answered (add_reply host (fst (addURL e url w))), snd (addURL e url w))"
proof (cases "count_file w")
  case None
  then show ?thesis
    by (simp add: numeral_3_eq_3 fs_readFile_def addURL_unreadable steps_Answered assms)
next
  case (Some c)
  then show ?thesis
    using assms
    by (cases "write_outcome e")
      (simp_all add: numeral_3_eq_3 fs_readFile_def addURL_def generateShortURL_def
        readFile_cb_def fs_writeFile_def insert_doc_def Let_def)
qed

lemma steps_arrived:
  "steps 3 e host (Arrived path) w =
     (let url = drop 5 path
      in if take 8 url = ''https://'' \<or> take 7 url = ''http://''
         then (case fetch e of
                 Probe_throws \<Rightarrow> (Answered express_reply, w)
               | Probe_error \<Rightarrow> (Answered invalid_reply, w)
               | Probe_ok \<Rightarrow>
                  (case findURL e url w of
                      Find_threw \<Rightarrow> (Answered Uncaught_TypeError, w)
                    | Find_error _ \<Rightarrow> (Answered database_reply, w)
                    | Find_none \<Rightarrow>
                        if add_connect_error e
                        then (Answered (add_reply host (Inl ConnectError)), w)
                        else (Allocating url Gen_start, w)
                    | Find_doc d \<Rightarrow> (Answered (Reply 200 (Json (with_host host d))), w)))
         else (Answered scheme_reply, w))"
  by (cases "fetch e")
    (auto simp: numeral_3_eq_3 Let_def checkURL_def split: find_result.splits)

lemma steps_route:
  "steps 6 e host (Arrived path) w =
     (Answered (fst (new_route e host path w)), snd (new_route e host path w))"
proof -
  have "steps 6 e host (Arrived path) w =
      steps 3 e host (fst (steps 3 e host (Arrived path) w)) (snd (steps 3 e host (Arrived path) w))"
    using steps_add [of 3 3] by simp
  also have "\<dots> = (Answered (fst (new_route e host path w)), snd (new_route e host path w))"
    by (cases "fetch e")
      (auto simp: steps_arrived new_route_def Let_def cb_def checked_def checkURL_def
        steps_Answered steps_allocating addURL_def split: find_result.splits prod.splits)
  finally show ?thesis .
qed

lemma run_one_after_the_other:
  "run (replicate 6 0 @ replicate 6 1)
     (w, [\<lparr>req_env = e1, req_host = h1, req_pc = Arrived p1\<rparr>,
          \<lparr>req_env = e2, req_host = h2, req_pc = Arrived p2\<rparr>]) =
   (snd (new_route e2 h2 p2 (snd (new_route e1 h1 p1 w))),
    [\<lparr>req_env = e1, req_host = h1, req_pc = Answered (fst (new_route e1 h1 p1 w))\<rparr>,
     \<lparr>req_env = e2, req_host = h2,
        req_pc = Answered (fst (new_route e2 h2 p2 (snd (new_route e1 h1 p1 w))))\<rparr>])"
proof -
  let ?r1 = "\<lparr>req_env = e1, req_host = h1, req_pc = Arrived p1\<rparr>"
  let ?r2 = "\<lparr>req_env = e2, req_host = h2, req_pc = Arrived p2\<rparr>"
  let ?a1 = "\<lparr>req_env = e1, req_host = h1, req_pc = Answered (fst (new_route e1 h1 p1 w))\<rparr>"
  have "run (replicate 6 0) (w, [?r1, ?r2]) = (snd (new_route e1 h1 p1 w), [?a1, ?r2])"
    using run_replicate [of 6 "[]" w ?r1 "[?r2]"] by (simp add: steps_route)
  moreover have "run (replicate 6 1) (snd (new_route e1 h1 p1 w), [?a1, ?r2]) =
      (snd (new_route e2 h2 p2 (snd (new_route e1 h1 p1 w))),
       [?a1, \<lparr>req_env = e2, req_host = h2,
          req_pc = Answered (fst (new_route e2 h2 p2 (snd (new_route e1 h1 p1 w))))\<rparr>])"
    using run_replicate [of 6 "[?a1]" "snd (new_route e1 h1 p1 w)" ?r2 "[]"]
    by (simp add: steps_route)
  ultimately show ?thesis
    by (simp add: run_def)
qed

section \<open>Calls and requests in flight together\<close>

text \<open>
  C1, as amended. Calls of \<open>generateShortURL\<close> made one after the other, each starting
  when the one before has called back, with every write succeeding and the counter staying
  within the exact integers (at most \<open>2 ^ 53\<close>): \<open>n\<close> calls starting from the counter value
  \<open>c\<close> return the codes of \<open>c, c + 1, ..., c + n - 1\<close>, in this order and all different, and
  leave \<open>c + n\<close> in the file. Nothing serialises calls that are in flight together.
\<close>

theorem sequential_calls_consecutive:
  assumes "count_file w = Some (Num c)" and "c + n \<le> MAX_EXACT"
  shows "gen_run (sequential_schedule 0 n) (w, replicate n (Written, Gen_start)) =
      (w\<lparr>count_file := Some (Num (c + n))\<rparr>,
       map (\<lambda>i. (Written, Gen_done (Inr (generate_str (Num (c + i)))))) [0..<n])
    \<and> distinct (map (\<lambda>i. generate_str (Num (c + i))) [0..<n])"
proof -
  let ?codes = "map (\<lambda>i. Inr (generate_str (Num (c + i)))) [0..<n] :: (jserror + string) list"
  have calls: "sequential_calls (replicate n Written) w =
      (?codes, w\<lparr>count_file := Some (Num (c + n))\<rparr>)"
    using assms by (rule sequential_calls_written)
  have "map (\<lambda>(wr, r). (wr, Gen_done r)) (zip (replicate n Written) ?codes) =
      map (\<lambda>i. (Written, Gen_done (Inr (generate_str (Num (c + i)))))) [0..<n]"
    by (rule nth_equalityI) simp_all
  then have "gen_run (sequential_schedule 0 n) (w, replicate n (Written, Gen_start)) =
      (w\<lparr>count_file := Some (Num (c + n))\<rparr>,
       map (\<lambda>i. (Written, Gen_done (Inr (generate_str (Num (c + i)))))) [0..<n])"
    using gen_run_sequential [of "[]" "replicate n Written" w] calls
    by (simp add: map_replicate)
  then show ?thesis
    using distinct_codes [of c n] assms(2) by simp
qed

theorem sequential_calls_consecutive_witness:
  "count_file \<lparr>count_file = Some (Num 0), shorturls = []\<rparr> = Some (Num 0)
   \<and> 0 + 3 \<le> MAX_EXACT
   \<and> gen_run [0, 0, 1, 1, 2, 2]
        (\<lparr>count_file = Some (Num 0), shorturls = []\<rparr>,
         [(Written, Gen_start), (Written, Gen_start), (Written, Gen_start)]) =
      (\<lparr>count_file = Some (Num 3), shorturls = []\<rparr>,
       [(Written, Gen_done (Inr (generate_str (Num 0)))),
        (Written, Gen_done (Inr (generate_str (Num 1)))),
        (Written, Gen_done (Inr (generate_str (Num 2))))])
   \<and> distinct [generate_str (Num 0), generate_str (Num 1), generate_str (Num 2)]"
proof -
  have s: "sequential_schedule 0 3 = [0, 0, 1, 1, 2, 2]"
    by (simp add: sequential_schedule_def upt_conv_Cons)
  have r: "replicate 3 (Written, Gen_start) =
      [(Written, Gen_start), (Written, Gen_start), (Written, Gen_start)]"
    by (simp add: numeral_3_eq_3)
  have u: "[0..<3] = [0, 1, 2]"
    by (simp add: upt_conv_Cons)
  show ?thesis
    using sequential_calls_consecutive [of "\<lparr>count_file = Some (Num 0), shorturls = []\<rparr>" 0 3]
    by (simp add: s r u MAX_EXACT_def)
qed

text \<open>
  C1 as stated fails. Two calls in flight together, both reading \<open>./count\<close> before either
  writes it: both return the code of 0, the code of 1 is returned by neither, and the file
  holds 1 after two calls. And two calls one after the other at the counter value \<open>2 ^ 53\<close>
  return the same code, because the increment leaves that value as it is.
\<close>

theorem concurrent_calls_counterexample:
  "gen_run [0, 1, 0, 1]
     (\<lparr>count_file = Some (Num 0), shorturls = []\<rparr>,
      [(Written, Gen_start), (Written, Gen_start)]) =
     (\<lparr>count_file = Some (Num 1), shorturls = []\<rparr>,
      [(Written, Gen_done (Inr ''1'')), (Written, Gen_done (Inr ''1''))])
   \<and> fst (sequential_calls [Written, Written]
        \<lparr>count_file = Some (Num 9007199254740992), shorturls = []\<rparr>) =
      [Inr (generate_str (Num 9007199254740992)), Inr (generate_str (Num 9007199254740992))]"
proof -
  have "gen_run [0, 1, 0, 1]
     (\<lparr>count_file = Some (Num 0), shorturls = []\<rparr>,
      [(Written, Gen_start), (Written, Gen_start)]) =
     (\<lparr>count_file = Some (Num 1), shorturls = []\<rparr>,
      [(Written, Gen_done (Inr ''1'')), (Written, Gen_done (Inr ''1''))])"
    by (simp add: gen_run_def gen_fire_def fs_readFile_def readFile_cb_def fs_writeFile_def
        do_while_Num asciiRange_eq MAX_EXACT_def js_incr_0) (simp add: urlChars_def)
  moreover have "fst (sequential_calls [Written, Written]
        \<lparr>count_file = Some (Num 9007199254740992), shorturls = []\<rparr>) =
      [Inr (generate_str (Num 9007199254740992)), Inr (generate_str (Num 9007199254740992))]"
    using js_incr_MAX_EXACT by (simp add: generateShortURL_written MAX_EXACT_def)
  ultimately show ?thesis
    by simp
qed

text \<open>
  C2, as amended. For a URL that begins with \<open>http://\<close> or \<open>https://\<close>, that is not yet in the
  collection and while \<open>./count\<close> can be read: two requests made one after the other, with
  nothing failing, get the same reply, with the same short code; the second request changes
  nothing, and the collection holds exactly one document for the URL. This is the schedule
  in which the first request takes its six steps before the second takes its first. There
  is no handling of a conflict on insert.
\<close>

theorem sequential_requests_idempotent:
  assumes "take 8 (drop 5 path) = ''https://'' \<or> take 7 (drop 5 path) = ''http://''"
    and "findOne (drop 5 path) (shorturls w) = None"
    and "count_file w = Some c"
  shows "fst (new_route all_ok host path w) =
      Reply 200 (Json \<lparr>original_url = drop 5 path, short_url = host @ ''/'' @ generate_str c\<rparr>)
    \<and> new_route all_ok host path (snd (new_route all_ok host path w)) =
        (fst (new_route all_ok host path w), snd (new_route all_ok host path w))
    \<and> filter (\<lambda>d. original_url d = drop 5 path)
        (shorturls (snd (new_route all_ok host path w))) =
        [\<lparr>original_url = drop 5 path, short_url = generate_str c\<rparr>]
    \<and> run (replicate 6 0 @ replicate 6 1)
        (w, [\<lparr>req_env = all_ok, req_host = host, req_pc = Arrived path\<rparr>,
             \<lparr>req_env = all_ok, req_host = host, req_pc = Arrived path\<rparr>]) =
        (snd (new_route all_ok host path w),
         [\<lparr>req_env = all_ok, req_host = host,
            req_pc = Answered (fst (new_route all_ok host path w))\<rparr>,
          \<lparr>req_env = all_ok, req_host = host,
            req_pc = Answered (fst (new_route all_ok host path w))\<rparr>])"
proof -
  let ?url = "drop 5 path"
  let ?d = "\<lparr>original_url = ?url, short_url = generate_str c\<rparr>"
  let ?w1 = "w\<lparr>count_file := Some (js_incr c), shorturls := shorturls w @ [?d]\<rparr>"
  have none: "filter (\<lambda>d. original_url d = ?url) (shorturls w) = []"
    using assms(2) by (simp add: findOne_def find_None_iff filter_empty_conv)
  have first: "new_route all_ok host path w = (Reply 200 (Json (with_host host ?d)), ?w1)"
    using assms
    by (simp add: new_route_scheme cb_added addURL_ok [where c = c] add_reply_def all_ok_fields)
  have "findOne ?url (shorturls ?w1) = Some ?d"
    using assms(2) by (simp add: findOne_def find_append_None)
  then have second: "new_route all_ok host path ?w1 = (Reply 200 (Json (with_host host ?d)), ?w1)"
    using assms(1) by (simp add: new_route_scheme cb_found all_ok_fields)
  have both: "run (replicate 6 0 @ replicate 6 1)
      (w, [\<lparr>req_env = all_ok, req_host = host, req_pc = Arrived path\<rparr>,
           \<lparr>req_env = all_ok, req_host = host, req_pc = Arrived path\<rparr>]) =
      (snd (new_route all_ok host path w),
       [\<lparr>req_env = all_ok, req_host = host,
          req_pc = Answered (fst (new_route all_ok host path w))\<rparr>,
        \<lparr>req_env = all_ok, req_host = host,
          req_pc = Answered (fst (new_route all_ok host path w))\<rparr>])"
    unfolding run_one_after_the_other by (simp add: first second)
  show ?thesis
    unfolding both using first second none by (simp add: with_host_def)
qed

theorem sequential_requests_idempotent_witness:
  "take 7 (drop 5 ''/new/http://example.com'') = ''http://''
   \<and> findOne (drop 5 ''/new/http://example.com'') [] = None
   \<and> count_file \<lparr>count_file = Some (Num 0), shorturls = []\<rparr> = Some (Num 0)
   \<and> fst (new_route all_ok ''localhost'' ''/new/http://example.com''
        \<lparr>count_file = Some (Num 0), shorturls = []\<rparr>) =
      Reply 200 (Json \<lparr>original_url = ''http://example.com'', short_url = ''localhost/1''\<rparr>)
   \<and> new_route all_ok ''localhost'' ''/new/http://example.com''
        (snd (new_route all_ok ''localhost'' ''/new/http://example.com''
          \<lparr>count_file = Some (Num 0), shorturls = []\<rparr>)) =
      (Reply 200 (Json \<lparr>original_url = ''http://example.com'', short_url = ''localhost/1''\<rparr>),
       \<lparr>count_file = Some (Num 1),
          shorturls = [\<lparr>original_url = ''http://example.com'', short_url = ''1''\<rparr>]\<rparr>)"
proof -
  have w: "snd (new_route all_ok ''localhost'' ''/new/http://example.com''
      \<lparr>count_file = Some (Num 0), shorturls = []\<rparr>) =
      \<lparr>count_file = Some (Num 1),
         shorturls = [\<lparr>original_url = ''http://example.com'', short_url = ''1''\<rparr>]\<rparr>"
    by (simp add: new_route_scheme cb_added findOne_def addURL_ok [where c = "Num 0"]
        all_ok_fields generate_str_0 js_incr_0)
  show ?thesis
    using sequential_requests_idempotent [of "''/new/http://example.com''"
        "\<lparr>count_file = Some (Num 0), shorturls = []\<rparr>" "Num 0" "''localhost''"]
    by (simp add: findOne_def generate_str_0 w)
qed

text \<open>
  C2 as stated fails. Two requests for the same URL in flight together, both looking the
  URL up before either has inserted its document: both find nothing and both insert. The
  two callers get different short codes, the collection holds two documents for the URL,
  and the second request is not answered with the document the first created.
\<close>

theorem concurrent_requests_counterexample:
  "run [0, 1, 0, 1, 0, 1, 0, 0, 1, 1, 0, 1]
     (\<lparr>count_file = Some (Num 0), shorturls = []\<rparr>,
      [\<lparr>req_env = all_ok, req_host = ''localhost'', req_pc = Arrived ''/new/http://example.com''\<rparr>,
       \<lparr>req_env = all_ok, req_host = ''localhost'', req_pc = Arrived ''/new/http://example.com''\<rparr>]) =
     (\<lparr>count_file = Some (Num 2),
        shorturls = [\<lparr>original_url = ''http://example.com'', short_url = ''1''\<rparr>,
                     \<lparr>original_url = ''http://example.com'', short_url = ''2''\<rparr>]\<rparr>,
      [\<lparr>req_env = all_ok, req_host = ''localhost'',
         req_pc = Answered (Reply 200
           (Json \<lparr>original_url = ''http://example.com'', short_url = ''localhost/1''\<rparr>))\<rparr>,
       \<lparr>req_env = all_ok, req_host = ''localhost'',
         req_pc = Answered (Reply 200
           (Json \<lparr>original_url = ''http://example.com'', short_url = ''localhost/2''\<rparr>))\<rparr>])"
  by (simp add: run_def fire_def all_ok_def findURL_def findOne_def checkURL_def
      fs_readFile_def readFile_cb_def fs_writeFile_def insert_doc_def add_reply_def
      with_host_def Let_def do_while_Num asciiRange_eq MAX_EXACT_def js_incr_exact)
    (simp add: urlChars_def)

end
